theory Spec2Isabelle
  imports Complex_Main "HOL-Library.Multiset"
begin

section \<open>Errors and results\<close>

text \<open>
  The exceptions the sampling code can raise. \<open>IndexError\<close> and \<open>ValueError\<close> are the
  Python exceptions of that name. \<open>NotFinite\<close> stands for a numpy outcome that is not an
  exception: a division by a zero sum, which numpy answers with a warning and an array of
  nan/inf entries. Weights are modelled as exact reals (the idealisation of the float32 and
  float64 arrays of the source), which have no such values, so the model stops there.
\<close>

datatype error = IndexError | ValueError | NotFinite

section \<open>RandomChoice\<close>

text \<open>
  \<^verbatim>\<open>cumsum\<close> of numpy: the running sums of a vector.
\<close>

fun cumsum_from :: "real \<Rightarrow> real list \<Rightarrow> real list" where
  "cumsum_from acc [] = []"
| "cumsum_from acc (x # xs) = (acc + x) # cumsum_from (acc + x) xs"

definition cumsum :: "real list \<Rightarrow> real list" where
  "cumsum xs = cumsum_from 0 xs"

text \<open>
  \<^verbatim>\<open>RandomChoice.__init__\<close>:
  \<^verbatim>\<open>p /= p.sum(); self.cdf = p.cumsum(); self.cdf /= self.cdf[-1]\<close>.
  The object holds the cdf only, so the constructor returns it. On an empty vector the
  first division has nothing to divide and \<^verbatim>\<open>self.cdf[-1]\<close> raises IndexError.
\<close>

definition RandomChoice_init :: "real list \<Rightarrow> error + real list" where
  "RandomChoice_init p =
     (let s = sum_list p in
      if p \<noteq> [] \<and> s = 0 then Inl NotFinite
      else
        let p' = map (\<lambda>x. x / s) p;
            cdf = cumsum p'
        in if cdf = [] then Inl IndexError
           else if last cdf = 0 then Inl NotFinite
           else Inr (map (\<lambda>c. c / last cdf) cdf))"

text \<open>
  \<^verbatim>\<open>ndarray.searchsorted(v, side='right')\<close>: numpy's binary search, which moves the
  lower end past every probed entry that is \<open>\<le>\<close> the key. The probe index is always below
  \<open>max_idx\<close>, hence inside the array.
\<close>

function binsearch_right :: "real list \<Rightarrow> real \<Rightarrow> nat \<Rightarrow> nat \<Rightarrow> nat" where
  "binsearch_right arr key min_idx max_idx =
     (if min_idx < max_idx then
        (let mid_idx = min_idx + (max_idx - min_idx) div 2 in
         if arr ! mid_idx \<le> key then binsearch_right arr key (mid_idx + 1) max_idx
         else binsearch_right arr key min_idx mid_idx)
      else min_idx)"
  by pat_completeness auto
termination
  by (relation "measure (\<lambda>(arr, key, min_idx, max_idx). max_idx - min_idx)") auto

definition searchsorted_right :: "real list \<Rightarrow> real \<Rightarrow> nat" where
  "searchsorted_right arr key = binsearch_right arr key 0 (length arr)"

text \<open>
  \<^verbatim>\<open>RandomChoice.get\<close>: the uniform sample \<open>u\<close> that
  \<^verbatim>\<open>np.random.random_sample(1)\<close> returns is the second argument.
\<close>

definition RandomChoice_get :: "real list \<Rightarrow> real \<Rightarrow> nat" where
  "RandomChoice_get cdf u = searchsorted_right cdf u"

text \<open>
  The search the specification describes: the index of the first entry that is greater
  than or equal to the sample (a lower bound). Written from the specification's words, for
  comparison with \<open>RandomChoice_get\<close>.
\<close>

definition spec_first_ge :: "real list \<Rightarrow> real \<Rightarrow> nat" where
  "spec_first_ge cdf u = length (takeWhile (\<lambda>c. c < u) cdf)"

section \<open>Sparse matrices\<close>

text \<open>
  A scipy CSR matrix with float entries: for each row the stored (column, value) entries
  in storage order. A stored value may be an explicit zero. \<^verbatim>\<open>shape[0]\<close> is the
  number of rows.
\<close>

type_synonym sparse = "(nat \<times> real) list list"

text \<open>\<^verbatim>\<open>M[i, j]\<close>: the stored values at that position, summed; 0 where nothing is stored.\<close>

definition entry :: "sparse \<Rightarrow> nat \<Rightarrow> nat \<Rightarrow> real" where
  "entry mat i j =
     (if i < length mat then sum_list (map snd (filter (\<lambda>e. fst e = j) (mat ! i))) else 0)"

text \<open>\<^verbatim>\<open>mat.eliminate_zeros()\<close>: drops the stored zeros, in place.\<close>

definition eliminate_zeros :: "sparse \<Rightarrow> sparse" where
  "eliminate_zeros mat = map (filter (\<lambda>e. snd e \<noteq> 0)) mat"

text \<open>
  \<^verbatim>\<open>sklearn.preprocessing.normalize(mat, axis=1, norm='l1', copy=False)\<close>: every row is
  divided by the sum of the absolute values of its entries; a row whose sum is zero is
  left as it is. A matrix without rows is rejected with a ValueError. With
  \<^verbatim>\<open>copy=False\<close> a float CSR matrix is rewritten in place, so the result is the
  matrix the caller passed.
\<close>

definition normalize_row :: "(nat \<times> real) list \<Rightarrow> (nat \<times> real) list" where
  "normalize_row row =
     (let s = sum_list (map (\<lambda>e. \<bar>snd e\<bar>) row)
      in if s = 0 then row else map (\<lambda>e. (fst e, snd e / s)) row)"

definition normalize :: "sparse \<Rightarrow> error + sparse" where
  "normalize mat = (if mat = [] then Inl ValueError else Inr (map normalize_row mat))"

text \<open>
  \<^verbatim>\<open>mat.nonzero()\<close>: the row indices and the column indices of the stored entries
  whose value is not zero, row by row. \<^verbatim>\<open>mat.data\<close>: all stored values, row by row.
\<close>

definition nonzero :: "sparse \<Rightarrow> nat list \<times> nat list" where
  "nonzero mat =
     (let es = concat (map (\<lambda>(i, row). map (\<lambda>e. (i, fst e)) (filter (\<lambda>e. snd e \<noteq> 0) row))
                           (enumerate 0 mat))
      in (map fst es, map snd es))"

definition data :: "sparse \<Rightarrow> real list" where
  "data mat = concat (map (map snd) mat)"

section \<open>MultipleRandomChoice\<close>

record MultipleRandomChoice =
  nodes_number :: nat
  choices :: "nat list list"
  rc :: "real list list"

text \<open>
  The inner loop of \<^verbatim>\<open>__init__\<close>:
  \<^verbatim>\<open>while k < K and nonzero[0][k] == i: choices[i].append(nonzero[1][k]);
  probs[i].append(data[k]); k += 1\<close>, with \<open>K = len(data)\<close>. Reading an index array past
  its end raises IndexError.
\<close>

function row_transitions ::
  "nat list \<Rightarrow> nat list \<Rightarrow> real list \<Rightarrow> nat \<Rightarrow> nat \<Rightarrow> nat list \<Rightarrow> real list \<Rightarrow>
   error + (nat \<times> nat list \<times> real list)" where
  "row_transitions nzr nzc dat i k cs ps =
     (if k < length dat then
        (if length nzr \<le> k then Inl IndexError
         else if nzr ! k = i then
           (if length nzc \<le> k then Inl IndexError
            else row_transitions nzr nzc dat i (Suc k) (cs @ [nzc ! k]) (ps @ [dat ! k]))
         else Inr (k, cs, ps))
      else Inr (k, cs, ps))"
  by pat_completeness auto
termination
  by (relation "measure (\<lambda>(nzr, nzc, dat, i, k, cs, ps). length dat - k)") auto

text \<open>
  The outer loop of \<^verbatim>\<open>__init__\<close>, \<^verbatim>\<open>for i in range(self.nodes_number)\<close>, from row
  \<open>i\<close> on: the three branches of the source in their order. \<open>chs\<close> and \<open>prs\<close> are the
  lists \<^verbatim>\<open>choices\<close> and \<^verbatim>\<open>probs\<close> built so far, one entry per row.
\<close>

function fill_tables ::
  "nat list \<Rightarrow> nat list \<Rightarrow> real list \<Rightarrow> nat \<Rightarrow> nat \<Rightarrow> nat \<Rightarrow> nat list list \<Rightarrow> real list list \<Rightarrow>
   error + (nat list list \<times> real list list)" where
  "fill_tables nzr nzc dat n i k chs prs =
     (if i < n then
        (if length dat \<le> k then fill_tables nzr nzc dat n (Suc i) k (chs @ [[i]]) (prs @ [[1]])
         else if length nzr \<le> k then Inl IndexError
         else if i < nzr ! k then fill_tables nzr nzc dat n (Suc i) k (chs @ [[i]]) (prs @ [[1]])
         else
           (case row_transitions nzr nzc dat i k [] [] of
              Inl e \<Rightarrow> Inl e
            | Inr (k', cs, ps) \<Rightarrow> fill_tables nzr nzc dat n (Suc i) k' (chs @ [cs]) (prs @ [ps])))
      else Inr (chs, prs))"
  by pat_completeness auto
termination
  by (relation "measure (\<lambda>(nzr, nzc, dat, n, i, k, chs, prs). n - i)") auto

text \<open>
  The first half of \<^verbatim>\<open>__init__\<close>: the matrix as the constructor leaves it, and the
  lists \<^verbatim>\<open>choices\<close> and \<^verbatim>\<open>probs\<close>. Each element of \<^verbatim>\<open>probs\<close> is a weight vector
  that the second half passes to \<^verbatim>\<open>RandomChoice\<close>.
\<close>

definition MultipleRandomChoice_tables ::
  "sparse \<Rightarrow> error + (sparse \<times> nat list list \<times> real list list)" where
  "MultipleRandomChoice_tables mat =
     (let mat0 = eliminate_zeros mat in
      case normalize mat0 of
        Inl e \<Rightarrow> Inl e
      | Inr transition_probs \<Rightarrow>
          (case fill_tables (fst (nonzero transition_probs)) (snd (nonzero transition_probs))
                  (data transition_probs) (length mat0) 0 0 [] [] of
             Inl e \<Rightarrow> Inl e
           | Inr (chs, prs) \<Rightarrow> Inr (transition_probs, chs, prs)))"

text \<open>
  The second loop of \<^verbatim>\<open>__init__\<close>:
  \<^verbatim>\<open>for i in range(self.nodes_number): self.rc.append(RandomChoice(probs[i]))\<close>;
  \<^verbatim>\<open>probs\<close> has one element per node.
\<close>

fun build_rc :: "real list list \<Rightarrow> error + real list list" where
  "build_rc [] = Inr []"
| "build_rc (p # prs) =
     (case RandomChoice_init p of
        Inl e \<Rightarrow> Inl e
      | Inr cdf \<Rightarrow> (case build_rc prs of Inl e \<Rightarrow> Inl e | Inr cdfs \<Rightarrow> Inr (cdf # cdfs)))"

text \<open>
  \<^verbatim>\<open>MultipleRandomChoice.__init__\<close>. The constructor changes its argument in place,
  so it returns the matrix as it stands afterwards together with the new object.
\<close>

definition MultipleRandomChoice_init :: "sparse \<Rightarrow> error + (sparse \<times> MultipleRandomChoice)" where
  "MultipleRandomChoice_init mat =
     (case MultipleRandomChoice_tables mat of
        Inl e \<Rightarrow> Inl e
      | Inr (mat', chs, prs) \<Rightarrow>
          (case build_rc prs of
             Inl e \<Rightarrow> Inl e
           | Inr cdfs \<Rightarrow>
               Inr (mat', \<lparr>nodes_number = length mat, choices = chs, rc = cdfs\<rparr>)))"

text \<open>
  \<^verbatim>\<open>__getitem__\<close>: \<^verbatim>\<open>self.choices[arg][self.rc[arg].get()]\<close>, with the uniform sample
  of \<^verbatim>\<open>get\<close> as an argument. Both subscripts raise IndexError out of range.
\<close>

definition MultipleRandomChoice_getitem :: "MultipleRandomChoice \<Rightarrow> nat \<Rightarrow> real \<Rightarrow> error + nat" where
  "MultipleRandomChoice_getitem self arg u =
     (if length (choices self) \<le> arg \<or> length (rc self) \<le> arg then Inl IndexError
      else
        (let idx = RandomChoice_get (rc self ! arg) u
         in if length (choices self ! arg) \<le> idx then Inl IndexError
            else Inr (choices self ! arg ! idx)))"

section \<open>The random source\<close>

text \<open>
  The source draws from numpy's global random state. The model makes that state explicit:
  a stream of raw naturals and the position of the next unread one. Each numpy primitive
  reads as many raw values as it needs and maps them onto exactly the values its
  documentation allows, so every outcome numpy can produce is the image of some stream.
\<close>

record rng =
  entropy :: "nat \<Rightarrow> nat"
  position :: nat

definition raw_values :: "nat \<Rightarrow> rng \<Rightarrow> nat list \<times> rng" where
  "raw_values n g =
     (map (\<lambda>t. entropy g (position g + t)) [0..<n], g\<lparr>position := position g + n\<rparr>)"

text \<open>
  \<^verbatim>\<open>np.random.randint(0, high, n, dtype=np.int32)\<close>: \<open>n\<close> integers in \<open>[0, high)\<close>;
  ValueError (low >= high) when \<open>high = 0\<close> and at least one value is asked for.
\<close>

definition randint :: "nat \<Rightarrow> nat \<Rightarrow> rng \<Rightarrow> error + (nat list \<times> rng)" where
  "randint high n g =
     (if n = 0 then Inr ([], g)
      else if high = 0 then Inl ValueError
      else Inr (map (\<lambda>r. r mod high) (fst (raw_values n g)), snd (raw_values n g)))"

text \<open>\<^verbatim>\<open>np.random.random_sample(1)\<close>: a float in \<open>[0, 1)\<close>, a multiple of \<open>2^-53\<close>.\<close>

definition random_sample :: "rng \<Rightarrow> real \<times> rng" where
  "random_sample g =
     (real (entropy g (position g) mod 2 ^ 53) / 2 ^ 53, g\<lparr>position := position g + 1\<rparr>)"

text \<open>
  \<^verbatim>\<open>np.random.shuffle(x)\<close>: for \<open>i\<close> from the last index down to 1, a random
  \<open>j\<close> in \<open>[0, i]\<close> and the swap of \<open>x[i]\<close> and \<open>x[j]\<close>.
\<close>

fun shuffle_from :: "nat \<Rightarrow> 'a list \<Rightarrow> rng \<Rightarrow> 'a list \<times> rng" where
  "shuffle_from 0 xs g = (xs, g)"
| "shuffle_from (Suc i) xs g =
     (let j = entropy g (position g) mod (Suc i + 1)
      in shuffle_from i (xs[Suc i := xs ! j, j := xs ! Suc i]) (g\<lparr>position := position g + 1\<rparr>))"

definition shuffle :: "'a list \<Rightarrow> rng \<Rightarrow> 'a list \<times> rng" where
  "shuffle xs g = shuffle_from (length xs - 1) xs g"

section \<open>generate_batches\<close>

text \<open>A batch: the arrays \<^verbatim>\<open>batch_u\<close>, \<^verbatim>\<open>batch_v\<close> and \<^verbatim>\<open>batch_x\<close>.\<close>

type_synonym batch = "nat list \<times> nat list \<times> real list"

text \<open>
  \<^verbatim>\<open>for j in range(batch_size): batch_v[j] = random_choice[batch_u[j]]\<close>, over the
  sources \<^verbatim>\<open>batch_u[0 .. batch_size - 1]\<close>; every call draws its own uniform sample.
\<close>

fun positive_targets ::
  "MultipleRandomChoice \<Rightarrow> nat list \<Rightarrow> rng \<Rightarrow> error + (nat list \<times> rng)" where
  "positive_targets random_choice [] g = Inr ([], g)"
| "positive_targets random_choice (s # ss) g =
     (case MultipleRandomChoice_getitem random_choice s (fst (random_sample g)) of
        Inl e \<Rightarrow> Inl e
      | Inr v \<Rightarrow>
          (case positive_targets random_choice ss (snd (random_sample g)) of
             Inl e \<Rightarrow> Inl e
           | Inr (vs, g') \<Rightarrow> Inr (v # vs, g')))"

text \<open>
  The loop body up to the shuffle: the three arrays before they are permuted. The first
  \<open>batch_size\<close> positions hold the pairs whose target comes from the row distribution,
  the other \<open>batch_size * number_negative\<close> positions the pairs with a uniform target.
\<close>

definition draw_batch ::
  "nat \<Rightarrow> MultipleRandomChoice \<Rightarrow> nat \<Rightarrow> nat \<Rightarrow> rng \<Rightarrow> error + (batch \<times> rng)" where
  "draw_batch number_nodes random_choice number_negative batch_size g =
     (case randint number_nodes batch_size g of
        Inl e \<Rightarrow> Inl e
      | Inr (drawn, g1) \<Rightarrow>
          (let batch_u = concat (replicate (number_negative + 1) drawn) in
           case positive_targets random_choice (take batch_size batch_u) g1 of
             Inl e \<Rightarrow> Inl e
           | Inr (batch_v, g2) \<Rightarrow>
               (case randint number_nodes (batch_size * number_negative) g2 of
                  Inl e \<Rightarrow> Inl e
                | Inr (negatives, g3) \<Rightarrow>
                    Inr ((batch_u, batch_v @ negatives,
                          replicate batch_size 1 @ replicate (batch_size * number_negative) (- 1)),
                         g3))))"

text \<open>\<^verbatim>\<open>a[shuind]\<close>: the entries of \<open>a\<close> at the given indices; IndexError out of range.\<close>

definition fancy_index :: "'a list \<Rightarrow> nat list \<Rightarrow> error + 'a list" where
  "fancy_index xs idx =
     (if \<forall>i \<in> set idx. i < length xs then Inr (map (\<lambda>i. xs ! i) idx) else Inl IndexError)"

text \<open>
  \<^verbatim>\<open>shuind = np.arange(len(batch_x)); np.random.shuffle(shuind)\<close> and the three
  subscripts \<^verbatim>\<open>batch_u[shuind], batch_v[shuind], batch_x[shuind]\<close>.
\<close>

definition shuffle_batch :: "batch \<Rightarrow> rng \<Rightarrow> error + (batch \<times> rng)" where
  "shuffle_batch b g =
     (case b of (batch_u, batch_v, batch_x) \<Rightarrow>
        (let shuind = fst (shuffle [0..<length batch_x] g) in
         case fancy_index batch_u shuind of
           Inl e \<Rightarrow> Inl e
         | Inr us \<Rightarrow>
             (case fancy_index batch_v shuind of
                Inl e \<Rightarrow> Inl e
              | Inr vs \<Rightarrow>
                  (case fancy_index batch_x shuind of
                     Inl e \<Rightarrow> Inl e
                   | Inr xs \<Rightarrow> Inr ((us, vs, xs), snd (shuffle [0..<length batch_x] g))))))"

definition next_batch ::
  "nat \<Rightarrow> MultipleRandomChoice \<Rightarrow> nat \<Rightarrow> nat \<Rightarrow> rng \<Rightarrow> error + (batch \<times> rng)" where
  "next_batch number_nodes random_choice number_negative batch_size g =
     (case draw_batch number_nodes random_choice number_negative batch_size g of
        Inl e \<Rightarrow> Inl e
      | Inr (b, g') \<Rightarrow> shuffle_batch b g')"

text \<open>
  What a call of \<^verbatim>\<open>next\<close> on a generator gives: a value, the end of the sequence, or
  another exception.
\<close>

datatype 'a outcome = Yield 'a | StopIteration | Raise error

text \<open>
  The generator object of \<^verbatim>\<open>generate_batches\<close>: created and not yet started (its
  arguments \<open>X\<close>, \<open>number_negative\<close>, \<open>number_iterations\<close>, \<open>batch_size\<close>), suspended at
  the \<^verbatim>\<open>yield\<close> of iteration \<open>i\<close> (its locals \<open>number_nodes\<close>, \<open>random_choice\<close>,
  \<open>number_negative\<close>, \<open>number_iterations\<close>, \<open>batch_size\<close>, \<open>i\<close>), or finished. The
  array \<^verbatim>\<open>probs\<close> of the source is computed and never read; the
  \<^verbatim>\<open>except StopIteration\<close> around the \<^verbatim>\<open>yield\<close> only answers an exception thrown into
  the generator, which no caller here does.
\<close>

datatype generator =
    Created sparse nat nat nat
  | Suspended nat MultipleRandomChoice nat nat nat nat
  | Closed

definition generate_batches :: "sparse \<Rightarrow> nat \<Rightarrow> nat \<Rightarrow> nat \<Rightarrow> generator" where
  "generate_batches X number_negative number_iterations batch_size =
     Created X number_negative number_iterations batch_size"

text \<open>
  \<^verbatim>\<open>for i in range(number_iterations)\<close> entered at \<open>i\<close>: the next batch is yielded, or
  the loop is over and the generator returns. An exception ends the generator; the random
  state it leaves behind is not tracked, nothing reads it.
\<close>

definition loop_from ::
  "nat \<Rightarrow> MultipleRandomChoice \<Rightarrow> nat \<Rightarrow> nat \<Rightarrow> nat \<Rightarrow> nat \<Rightarrow> rng \<Rightarrow> batch outcome \<times> generator \<times> rng" where
  "loop_from number_nodes random_choice number_negative number_iterations batch_size i g =
     (if i < number_iterations then
        (case next_batch number_nodes random_choice number_negative batch_size g of
           Inl e \<Rightarrow> (Raise e, Closed, g)
         | Inr (b, g') \<Rightarrow>
             (Yield b,
              Suspended number_nodes random_choice number_negative number_iterations batch_size i,
              g'))
      else (StopIteration, Closed, g))"

fun generator_next :: "generator \<Rightarrow> rng \<Rightarrow> batch outcome \<times> generator \<times> rng" where
  "generator_next (Created X number_negative number_iterations batch_size) g =
     (case MultipleRandomChoice_init X of
        Inl e \<Rightarrow> (Raise e, Closed, g)
      | Inr (X', random_choice) \<Rightarrow>
          loop_from (length X) random_choice number_negative number_iterations batch_size 0 g)"
| "generator_next (Suspended number_nodes random_choice number_negative number_iterations batch_size i) g =
     loop_from number_nodes random_choice number_negative number_iterations batch_size (Suc i) g"
| "generator_next Closed g = (StopIteration, Closed, g)"

section \<open>async_batches\<close>

text \<open>
  \<^verbatim>\<open>while current_batch:\<close> tests a tuple of three arrays, and a tuple that is not empty
  is true.
\<close>

definition truthy :: "batch \<Rightarrow> bool" where
  "truthy current_batch = True"

text \<open>
  The generator object of \<^verbatim>\<open>async_batches\<close>: not yet started, suspended at its
  \<^verbatim>\<open>yield\<close> with the result \<^verbatim>\<open>async_result\<close> of the call of \<^verbatim>\<open>it.__next__\<close> handed
  to the worker and the generator \<^verbatim>\<open>it\<close> as that call leaves it, or finished. The one
  worker thread is the only reader of the random state between two calls of \<^verbatim>\<open>next\<close>,
  so the handed-over call is evaluated where it is submitted.
\<close>

datatype async_generator =
    AsyncCreated sparse nat nat nat
  | AsyncSuspended "batch outcome" generator
  | AsyncClosed

definition async_batches :: "sparse \<Rightarrow> nat \<Rightarrow> nat \<Rightarrow> nat \<Rightarrow> async_generator" where
  "async_batches X number_negative number_iterations batch_size =
     AsyncCreated X number_negative number_iterations batch_size"

text \<open>
  The \<^verbatim>\<open>while\<close> loop entered with \<open>current_batch\<close>:
  \<^verbatim>\<open>async_result = pool.apply_async(it.__next__); yield current_batch\<close>.
\<close>

definition async_loop :: "batch \<Rightarrow> generator \<Rightarrow> rng \<Rightarrow> batch outcome \<times> async_generator \<times> rng" where
  "async_loop current_batch it g =
     (if truthy current_batch then
        (case generator_next it g of
           (async_result, it', g') \<Rightarrow> (Yield current_batch, AsyncSuspended async_result it', g'))
      else (StopIteration, AsyncClosed, g))"

text \<open>
  The first call runs \<^verbatim>\<open>current_batch = next(it)\<close>; a later call resumes with
  \<^verbatim>\<open>current_batch = async_result.get()\<close>, which raises what the worker's call raised.
  StopIteration is caught and ends the wrapper; any other exception leaves it.
\<close>

fun async_next :: "async_generator \<Rightarrow> rng \<Rightarrow> batch outcome \<times> async_generator \<times> rng" where
  "async_next (AsyncCreated X number_negative number_iterations batch_size) g =
     (case generator_next (generate_batches X number_negative number_iterations batch_size) g of
        (Yield current_batch, it, g') \<Rightarrow> async_loop current_batch it g'
      | (StopIteration, it, g') \<Rightarrow> (StopIteration, AsyncClosed, g')
      | (Raise e, it, g') \<Rightarrow> (Raise e, AsyncClosed, g'))"
| "async_next (AsyncSuspended async_result it) g =
     (case async_result of
        Yield current_batch \<Rightarrow> async_loop current_batch it g
      | StopIteration \<Rightarrow> (StopIteration, AsyncClosed, g)
      | Raise e \<Rightarrow> (Raise e, AsyncClosed, g))"
| "async_next AsyncClosed g = (StopIteration, AsyncClosed, g)"

text \<open>The outcomes of \<open>n\<close> successive calls of \<^verbatim>\<open>next\<close> on a generator.\<close>

fun run :: "('s \<Rightarrow> rng \<Rightarrow> 'a outcome \<times> 's \<times> rng) \<Rightarrow> nat \<Rightarrow> 's \<Rightarrow> rng \<Rightarrow> 'a outcome list" where
  "run nxt 0 s g = []"
| "run nxt (Suc n) s g = (case nxt s g of (out, s', g') \<Rightarrow> out # run nxt n s' g')"

section \<open>Auxiliary notions for the proofs\<close>

text \<open>
  The stored entries of the rows from row \<open>i\<close> on, each with its row index: the
  arrays \<^verbatim>\<open>nonzero[0]\<close>, \<^verbatim>\<open>nonzero[1]\<close> and \<^verbatim>\<open>data\<close> side by side. The other
  definitions name what the constructor computes for one row, for a matrix without stored
  zeros: the matrix after \<^verbatim>\<open>eliminate_zeros\<close> and \<^verbatim>\<open>normalize\<close>, the candidates of a
  row and their weights.
\<close>

fun tagged :: "nat \<Rightarrow> sparse \<Rightarrow> (nat \<times> nat \<times> real) list" where
  "tagged i [] = []"
| "tagged i (row # rows) = map (Pair i) row @ tagged (Suc i) rows"

definition row_choices :: "nat \<Rightarrow> (nat \<times> real) list \<Rightarrow> nat list" where
  "row_choices i row = (if row = [] then [i] else map fst row)"

definition row_probs :: "(nat \<times> real) list \<Rightarrow> real list" where
  "row_probs row = (if row = [] then [1] else map snd row)"

definition no_zeros :: "sparse \<Rightarrow> bool" where
  "no_zeros mat = (\<forall>row \<in> set mat. \<forall>e \<in> set row. snd e \<noteq> 0)"

definition transition_rows :: "sparse \<Rightarrow> sparse" where
  "transition_rows mat = map normalize_row (eliminate_zeros mat)"

text \<open>
  The parameters \<open>number_negative\<close> and \<open>batch_size\<close> a generator of
  \<^verbatim>\<open>generate_batches\<close> carries, and the property of a sampler that every row below \<open>n\<close>
  answers every uniform sample in \<open>[0, 1)\<close>.
\<close>

fun number_negative_of :: "generator \<Rightarrow> nat" where
  "number_negative_of (Created X number_negative number_iterations batch_size) = number_negative"
| "number_negative_of (Suspended number_nodes random_choice number_negative number_iterations batch_size i) =
     number_negative"
| "number_negative_of Closed = 0"

fun batch_size_of :: "generator \<Rightarrow> nat" where
  "batch_size_of (Created X number_negative number_iterations batch_size) = batch_size"
| "batch_size_of (Suspended number_nodes random_choice number_negative number_iterations batch_size i) =
     batch_size"
| "batch_size_of Closed = 0"


section \<open>Properties of RandomChoice\<close>

declare binsearch_right.simps [simp del]

lemma binsearch_right_stop:
  "\<not> min_idx < max_idx \<Longrightarrow> binsearch_right arr key min_idx max_idx = min_idx"
  by (subst binsearch_right.simps) simp

lemma binsearch_right_le:
  "min_idx < max_idx \<Longrightarrow> arr ! (min_idx + (max_idx - min_idx) div 2) \<le> key \<Longrightarrow>
     binsearch_right arr key min_idx max_idx =
     binsearch_right arr key (min_idx + (max_idx - min_idx) div 2 + 1) max_idx"
  by (subst binsearch_right.simps) (simp add: Let_def)

lemma binsearch_right_gt:
  "min_idx < max_idx \<Longrightarrow> \<not> arr ! (min_idx + (max_idx - min_idx) div 2) \<le> key \<Longrightarrow>
     binsearch_right arr key min_idx max_idx =
     binsearch_right arr key min_idx (min_idx + (max_idx - min_idx) div 2)"
  by (subst binsearch_right.simps) (simp add: Let_def)

lemma binsearch_right_bounds:
  "min_idx \<le> max_idx \<Longrightarrow>
     min_idx \<le> binsearch_right arr key min_idx max_idx \<and>
     binsearch_right arr key min_idx max_idx \<le> max_idx"
proof (induction arr key min_idx max_idx rule: binsearch_right.induct)
  case (1 arr key min_idx max_idx)
  show ?case
  proof (cases "min_idx < max_idx")
    case False
    then show ?thesis using "1.prems" by (simp add: binsearch_right_stop)
  next
    case True
    define mid where "mid = min_idx + (max_idx - min_idx) div 2"
    have mid: "min_idx \<le> mid" "mid < max_idx" using True by (auto simp: mid_def)
    show ?thesis
    proof (cases "arr ! mid \<le> key")
      case le: True
      have "mid + 1 \<le> binsearch_right arr key (mid + 1) max_idx \<and>
            binsearch_right arr key (mid + 1) max_idx \<le> max_idx"
        using "1.IH"(1) [OF True mid_def le] mid by simp
      moreover have "binsearch_right arr key min_idx max_idx = binsearch_right arr key (mid + 1) max_idx"
        using binsearch_right_le [OF True] le by (simp add: mid_def)
      ultimately show ?thesis using mid by simp
    next
      case gt: False
      have "min_idx \<le> binsearch_right arr key min_idx mid \<and>
            binsearch_right arr key min_idx mid \<le> mid"
        using "1.IH"(2) [OF True mid_def gt] mid by simp
      moreover have "binsearch_right arr key min_idx max_idx = binsearch_right arr key min_idx mid"
        using binsearch_right_gt [OF True] gt by (simp add: mid_def)
      ultimately show ?thesis using mid by simp
    qed
  qed
qed

text \<open>
  Whatever the order of the array, the search never returns the length of the array when
  the last entry is greater than the key: the upper end only moves to probed entries, and
  the lower end can only reach the length by stepping over the last entry.
\<close>

lemma binsearch_right_lt_length:
  "min_idx < max_idx \<Longrightarrow> max_idx = length arr \<Longrightarrow> key < arr ! (length arr - 1) \<Longrightarrow>
     binsearch_right arr key min_idx max_idx < length arr"
proof (induction arr key min_idx max_idx rule: binsearch_right.induct)
  case (1 arr key min_idx max_idx)
  define mid where "mid = min_idx + (max_idx - min_idx) div 2"
  have lt: "min_idx < max_idx" by (rule "1.prems"(1))
  have mid: "min_idx \<le> mid" "mid < max_idx" using lt by (auto simp: mid_def)
  show ?case
  proof (cases "arr ! mid \<le> key")
    case le: True
    have eq: "binsearch_right arr key min_idx max_idx = binsearch_right arr key (mid + 1) max_idx"
      using binsearch_right_le [OF lt] le by (simp add: mid_def)
    have "mid \<noteq> length arr - 1" using le "1.prems"(3) by auto
    then have "mid + 1 < max_idx" using mid "1.prems"(2) by simp
    then have "binsearch_right arr key (mid + 1) max_idx < length arr"
      using "1.IH"(1) [OF lt mid_def le] "1.prems" by simp
    then show ?thesis using eq by simp
  next
    case gt: False
    have eq: "binsearch_right arr key min_idx max_idx = binsearch_right arr key min_idx mid"
      using binsearch_right_gt [OF lt] gt by (simp add: mid_def)
    have "binsearch_right arr key min_idx mid \<le> mid"
      using binsearch_right_bounds [of min_idx mid arr key] mid by simp
    then show ?thesis using eq mid "1.prems"(2) by simp
  qed
qed

text \<open>
  On a sorted array the search returns the number of entries that are \<open>\<le>\<close> the key:
  every entry before the result is \<open>\<le>\<close> the key and every entry from the result on is
  greater.
\<close>

lemma binsearch_right_sorted:
  "sorted arr \<Longrightarrow> min_idx \<le> max_idx \<Longrightarrow> max_idx \<le> length arr \<Longrightarrow>
   (\<forall>j < min_idx. arr ! j \<le> key) \<Longrightarrow> (\<forall>j. max_idx \<le> j \<and> j < length arr \<longrightarrow> key < arr ! j) \<Longrightarrow>
     (\<forall>j < binsearch_right arr key min_idx max_idx. arr ! j \<le> key) \<and>
     (\<forall>j. binsearch_right arr key min_idx max_idx \<le> j \<and> j < length arr \<longrightarrow> key < arr ! j)"
proof (induction arr key min_idx max_idx rule: binsearch_right.induct)
  case (1 arr key min_idx max_idx)
  show ?case
  proof (cases "min_idx < max_idx")
    case False
    then have "binsearch_right arr key min_idx max_idx = min_idx" "min_idx = max_idx"
      using "1.prems"(2) by (simp_all add: binsearch_right_stop)
    then show ?thesis using "1.prems" by simp
  next
    case lt: True
    define mid where "mid = min_idx + (max_idx - min_idx) div 2"
    have mid: "min_idx \<le> mid" "mid < max_idx" using lt by (auto simp: mid_def)
    have midlen: "mid < length arr" using mid "1.prems"(3) by simp
    show ?thesis
    proof (cases "arr ! mid \<le> key")
      case le: True
      have eq: "binsearch_right arr key min_idx max_idx = binsearch_right arr key (mid + 1) max_idx"
        using binsearch_right_le [OF lt] le by (simp add: mid_def)
      have below: "\<forall>j < mid + 1. arr ! j \<le> key"
      proof (intro allI impI)
        fix j assume "j < mid + 1"
        then have "arr ! j \<le> arr ! mid"
          using "1.prems"(1) midlen by (simp add: sorted_nth_mono)
        then show "arr ! j \<le> key" using le by simp
      qed
      show ?thesis
        unfolding eq
        using "1.IH"(1) [OF lt mid_def le "1.prems"(1) _ "1.prems"(3) below "1.prems"(5)] mid
        by simp
    next
      case gt: False
      have eq: "binsearch_right arr key min_idx max_idx = binsearch_right arr key min_idx mid"
        using binsearch_right_gt [OF lt] gt by (simp add: mid_def)
      have above: "\<forall>j. mid \<le> j \<and> j < length arr \<longrightarrow> key < arr ! j"
      proof (intro allI impI)
        fix j assume "mid \<le> j \<and> j < length arr"
        then have "arr ! mid \<le> arr ! j"
          using "1.prems"(1) by (simp add: sorted_nth_mono)
        then show "key < arr ! j" using gt by simp
      qed
      show ?thesis
        unfolding eq
        using "1.IH"(2) [OF lt mid_def gt "1.prems"(1) mid(1) _ "1.prems"(4) above] midlen
        by simp
    qed
  qed
qed

subsection \<open>The cdf table\<close>

lemma length_cumsum_from: "length (cumsum_from acc xs) = length xs"
  by (induction xs arbitrary: acc) auto

lemma last_cumsum_from:
  "xs \<noteq> [] \<Longrightarrow> last (cumsum_from acc xs) = acc + sum_list xs"
proof (induction xs arbitrary: acc)
  case Nil
  then show ?case by simp
next
  case (Cons x xs)
  show ?case
  proof (cases xs)
    case Nil
    then show ?thesis by simp
  next
    case (Cons y ys)
    then have "cumsum_from (acc + x) xs \<noteq> []" by simp
    then show ?thesis using Cons.IH [of "acc + x"] Cons by (simp add: add.assoc)
  qed
qed

lemma cumsum_from_lower:
  "\<forall>x \<in> set xs. 0 \<le> x \<Longrightarrow> \<forall>c \<in> set (cumsum_from acc xs). acc \<le> c"
proof (induction xs arbitrary: acc)
  case Nil
  then show ?case by simp
next
  case (Cons x xs)
  have "\<forall>c \<in> set (cumsum_from (acc + x) xs). acc + x \<le> c"
    using Cons.IH [of "acc + x"] Cons.prems by simp
  then show ?case using Cons.prems by fastforce
qed

lemma sorted_cumsum_from:
  "\<forall>x \<in> set xs. 0 \<le> x \<Longrightarrow> sorted (cumsum_from acc xs)"
proof (induction xs arbitrary: acc)
  case Nil
  then show ?case by simp
next
  case (Cons x xs)
  have "sorted (cumsum_from (acc + x) xs)" using Cons by simp
  moreover have "\<forall>c \<in> set (cumsum_from (acc + x) xs). acc + x \<le> c"
    using cumsum_from_lower [of xs "acc + x"] Cons.prems by simp
  ultimately show ?case by simp
qed

lemma sum_list_divide:
  "sum_list (map (\<lambda>x. x / s) (p::real list)) = sum_list p / s"
  by (induction p) (simp_all add: add_divide_distrib)

text \<open>
  For a vector with a nonzero sum the constructor succeeds; the cdf has one entry per
  weight and its last entry is exactly 1.
\<close>

lemma RandomChoice_init_ok:
  assumes "sum_list p \<noteq> 0"
  shows "\<exists>cdf. RandomChoice_init p = Inr cdf \<and> length cdf = length p \<and> last cdf = 1"
proof -
  define s where "s = sum_list p"
  define c where "c = cumsum (map (\<lambda>x. x / s) p)"
  have ne: "p \<noteq> []" using assms by auto
  have len: "length c = length p" by (simp add: c_def cumsum_def length_cumsum_from)
  have cne: "c \<noteq> []" using len ne by auto
  have "last c = sum_list (map (\<lambda>x. x / s) p)"
    using ne by (simp add: c_def cumsum_def last_cumsum_from)
  then have lastc: "last c = 1" using assms by (simp add: sum_list_divide s_def)
  have "RandomChoice_init p = Inr (map (\<lambda>x. x / last c) c)"
    using assms cne lastc by (simp add: RandomChoice_init_def Let_def s_def c_def)
  then show ?thesis using len lastc cne by (simp add: last_map)
qed

lemma RandomChoice_init_sorted:
  assumes "\<forall>x \<in> set p. 0 \<le> x" and "RandomChoice_init p = Inr cdf"
  shows "sorted cdf"
proof -
  define s where "s = sum_list p"
  define c where "c = cumsum (map (\<lambda>x. x / s) p)"
  have s0: "0 \<le> s" using assms(1) by (simp add: s_def sum_list_nonneg)
  have "\<forall>x \<in> set (map (\<lambda>x. x / s) p). 0 \<le> x" using assms(1) s0 by simp
  then have sc: "sorted c" unfolding c_def cumsum_def by (rule sorted_cumsum_from)
  have cdf: "cdf = map (\<lambda>x. x / last c) c" and "c \<noteq> []"
    using assms(2) by (auto simp: RandomChoice_init_def Let_def s_def c_def split: if_splits)
  have "last c \<in> set c" using \<open>c \<noteq> []\<close> by simp
  moreover have "\<forall>x \<in> set c. 0 \<le> x"
    using cumsum_from_lower [of "map (\<lambda>x. x / s) p" 0] \<open>\<forall>x \<in> set (map (\<lambda>x. x / s) p). 0 \<le> x\<close>
    by (simp add: c_def cumsum_def)
  ultimately have "0 \<le> last c" by blast
  then have "mono (\<lambda>x. x / last c)" by (simp add: mono_def divide_right_mono)
  then show ?thesis unfolding cdf using sc by (simp add: sorted_map mono_def sorted_wrt_iff_nth_less)
qed

section \<open>Properties of the table construction\<close>

declare row_transitions.simps [simp del] fill_tables.simps [simp del]

lemma row_transitions_takeWhile:
  "row_transitions (map fst es) (map (fst \<circ> snd) es) (map (snd \<circ> snd) es) i k cs ps =
     Inr (k + length (takeWhile (\<lambda>e. fst e = i) (drop k es)),
          cs @ map (fst \<circ> snd) (takeWhile (\<lambda>e. fst e = i) (drop k es)),
          ps @ map (snd \<circ> snd) (takeWhile (\<lambda>e. fst e = i) (drop k es)))"
proof (induction "length es - k" arbitrary: k cs ps)
  case 0
  then show ?case by (subst row_transitions.simps) simp
next
  case (Suc d)
  then have k: "k < length es" by simp
  have dr: "drop k es = es ! k # drop (Suc k) es" using k by (simp add: Cons_nth_drop_Suc)
  show ?case
  proof (cases "fst (es ! k) = i")
    case True
    have "d = length es - Suc k" using Suc.hyps(2) by simp
    from Suc.hyps(1) [OF this] show ?thesis
      using True k by (subst row_transitions.simps) (simp add: dr)
  next
    case False
    then show ?thesis using k by (subst row_transitions.simps) (simp add: dr)
  qed
qed

lemma tagged_fst_ge: "e \<in> set (tagged i rows) \<Longrightarrow> i \<le> fst e"
  by (induction rows arbitrary: i) fastforce+

lemma fill_tables_tagged:
  "es = pre @ tagged i rows \<Longrightarrow> k = length pre \<Longrightarrow> n = i + length rows \<Longrightarrow>
   fill_tables (map fst es) (map (fst \<circ> snd) es) (map (snd \<circ> snd) es) n i k chs prs =
     Inr (chs @ map (\<lambda>(j, row). row_choices j row) (enumerate i rows), prs @ map row_probs rows)"
proof (induction rows arbitrary: i k pre chs prs)
  case Nil
  then show ?case by (subst fill_tables.simps) simp
next
  case (Cons row rows)
  have lt: "i < n" using Cons.prems(3) by simp
  have n': "n = Suc i + length rows" using Cons.prems(3) by simp
  show ?case
  proof (cases "row = []")
    case True
    have es: "es = pre @ tagged (Suc i) rows" using Cons.prems(1) True by simp
    have IH: "fill_tables (map fst es) (map (fst \<circ> snd) es) (map (snd \<circ> snd) es) n (Suc i) k
                (chs @ [[i]]) (prs @ [[1]]) =
              Inr ((chs @ [[i]]) @ map (\<lambda>(j, row). row_choices j row) (enumerate (Suc i) rows),
                   (prs @ [[1]]) @ map row_probs rows)"
      by (rule Cons.IH [OF es Cons.prems(2) n'])
    have later: "length es \<le> k \<or> (k < length es \<and> i < fst (es ! k))"
    proof (cases "tagged (Suc i) rows")
      case Nil
      then show ?thesis using es Cons.prems(2) by simp
    next
      case (Cons t ts)
      have "es ! k = t" using es Cons Cons.prems(2) by (simp add: nth_append)
      moreover have "Suc i \<le> fst t" using tagged_fst_ge [of t "Suc i" rows] Cons by simp
      ultimately show ?thesis using es Cons Cons.prems(2) by simp
    qed
    have rc: "row_choices i row = [i]" "row_probs row = [1]"
      using True by (simp_all add: row_choices_def row_probs_def)
    from later show ?thesis
      using lt IH
      by (subst fill_tables.simps) (auto simp: rc)
  next
    case False
    define pre' where "pre' = pre @ map (Pair i) row"
    have es: "es = pre' @ tagged (Suc i) rows" using Cons.prems(1) by (simp add: pre'_def)
    have k': "k + length row = length pre'" using Cons.prems(2) by (simp add: pre'_def)
    have IH: "fill_tables (map fst es) (map (fst \<circ> snd) es) (map (snd \<circ> snd) es) n (Suc i)
                (k + length row) (chs @ [map fst row]) (prs @ [map snd row]) =
              Inr ((chs @ [map fst row]) @ map (\<lambda>(j, row). row_choices j row) (enumerate (Suc i) rows),
                   (prs @ [map snd row]) @ map row_probs rows)"
      by (rule Cons.IH [OF es k' n'])
    have dr: "drop k es = map (Pair i) row @ tagged (Suc i) rows"
      using Cons.prems(1,2) by simp
    have tw: "takeWhile (\<lambda>e. fst e = i) (drop k es) = map (Pair i) row"
    proof -
      have "takeWhile (\<lambda>e. fst e = i) (tagged (Suc i) rows) = []"
      proof (cases "tagged (Suc i) rows")
        case Nil
        then show ?thesis by simp
      next
        case (Cons t ts)
        have "Suc i \<le> fst t" using tagged_fst_ge [of t "Suc i" rows] Cons by simp
        then show ?thesis using Cons by simp
      qed
      moreover have "takeWhile (\<lambda>e. fst e = i) (map (Pair i) row @ tagged (Suc i) rows) =
                     map (Pair i) row @ takeWhile (\<lambda>e. fst e = i) (tagged (Suc i) rows)"
        by (rule takeWhile_append2) auto
      ultimately show ?thesis unfolding dr by simp
    qed
    have rt: "row_transitions (map fst es) (map (fst \<circ> snd) es) (map (snd \<circ> snd) es) i k [] [] =
                Inr (k + length row, map fst row, map snd row)"
      unfolding row_transitions_takeWhile tw by (simp add: comp_def)
    obtain a row' where row: "row = a # row'" using False by (cases row) auto
    have klt: "k < length es" using Cons.prems(1,2) row by simp
    have "es ! k = (i, a)" using Cons.prems(1,2) row by (simp add: nth_append)
    then have here: "fst (es ! k) = i" by simp
    have rc: "row_choices i row = map fst row" "row_probs row = map snd row"
      using False by (simp_all add: row_choices_def row_probs_def)
    show ?thesis
      using lt klt here IH rt
      by (subst fill_tables.simps) (simp add: rc)
  qed
qed

lemma nonzero_tagged_aux:
  "no_zeros mat \<Longrightarrow>
   concat (map (\<lambda>(i, row). map (\<lambda>e. (i, fst e)) (filter (\<lambda>e. snd e \<noteq> 0) row)) (enumerate i mat)) =
   map (\<lambda>t. (fst t, fst (snd t))) (tagged i mat)"
proof (induction mat arbitrary: i)
  case Nil
  then show ?case by simp
next
  case (Cons row mat)
  have "filter (\<lambda>e. snd e \<noteq> 0) row = row"
    using Cons.prems by (simp add: no_zeros_def)
  moreover have "no_zeros mat" using Cons.prems by (simp add: no_zeros_def)
  ultimately show ?case using Cons.IH [of "Suc i"] by (simp add: comp_def)
qed

lemma nonzero_tagged:
  "no_zeros mat \<Longrightarrow>
   nonzero mat = (map fst (tagged 0 mat), map (fst \<circ> snd) (tagged 0 mat))"
  by (simp add: nonzero_def Let_def nonzero_tagged_aux comp_def)

lemma data_tagged: "data mat = map (snd \<circ> snd) (tagged i mat)"
  by (induction mat arbitrary: i) (simp_all add: data_def comp_def)

lemma normalize_row_nonzero:
  assumes "\<forall>e \<in> set row. snd e \<noteq> 0"
  shows "\<forall>e \<in> set (normalize_row row). snd e \<noteq> 0"
  using assms by (auto simp: normalize_row_def Let_def)

lemma no_zeros_transition_rows: "no_zeros (transition_rows mat)"
proof -
  have "\<forall>row \<in> set (eliminate_zeros mat). \<forall>e \<in> set row. snd e \<noteq> 0"
    by (auto simp: eliminate_zeros_def)
  then show ?thesis
    unfolding no_zeros_def transition_rows_def using normalize_row_nonzero by auto
qed

lemma length_transition_rows: "length (transition_rows mat) = length mat"
  by (simp add: transition_rows_def eliminate_zeros_def)

lemma MultipleRandomChoice_tables_eq:
  assumes "mat \<noteq> []"
  shows "MultipleRandomChoice_tables mat =
           Inr (transition_rows mat,
                map (\<lambda>(j, row). row_choices j row) (enumerate 0 (transition_rows mat)),
                map row_probs (transition_rows mat))"
proof -
  define tp where "tp = transition_rows mat"
  define es where "es = tagged 0 tp"
  have norm: "normalize (eliminate_zeros mat) = Inr tp"
    using assms by (simp add: normalize_def tp_def transition_rows_def eliminate_zeros_def)
  have nz: "nonzero tp = (map fst es, map (fst \<circ> snd) es)"
    unfolding es_def tp_def by (rule nonzero_tagged) (rule no_zeros_transition_rows)
  have dat: "data tp = map (snd \<circ> snd) es" unfolding es_def by (rule data_tagged)
  have len: "length (eliminate_zeros mat) = 0 + length tp"
    by (simp add: tp_def length_transition_rows eliminate_zeros_def)
  have "fill_tables (map fst es) (map (fst \<circ> snd) es) (map (snd \<circ> snd) es)
          (length (eliminate_zeros mat)) 0 0 [] [] =
        Inr ([] @ map (\<lambda>(j, row). row_choices j row) (enumerate 0 tp), [] @ map row_probs tp)"
    by (rule fill_tables_tagged [where pre = "[]"]) (simp_all add: es_def len)
  then show ?thesis
    using norm nz dat by (simp add: MultipleRandomChoice_tables_def Let_def tp_def)
qed

lemma build_rc_Inr:
  "build_rc prs = Inr cdfs \<Longrightarrow>
     length cdfs = length prs \<and> (\<forall>i < length prs. RandomChoice_init (prs ! i) = Inr (cdfs ! i))"
proof (induction prs arbitrary: cdfs)
  case Nil
  then show ?case by simp
next
  case (Cons p prs)
  from Cons.prems obtain cdf rest where
    p: "RandomChoice_init p = Inr cdf" and rest: "build_rc prs = Inr rest" and cdfs: "cdfs = cdf # rest"
    by (auto split: sum.splits)
  have IH: "length rest = length prs \<and> (\<forall>i < length prs. RandomChoice_init (prs ! i) = Inr (rest ! i))"
    by (rule Cons.IH [OF rest])
  show ?case
  proof (intro conjI allI impI)
    show "length cdfs = length (p # prs)" using IH cdfs by simp
  next
    fix i assume "i < length (p # prs)"
    then show "RandomChoice_init ((p # prs) ! i) = Inr (cdfs ! i)"
      using IH p cdfs by (cases i) auto
  qed
qed

lemma build_rc_ok:
  "\<forall>p \<in> set prs. \<exists>cdf. RandomChoice_init p = Inr cdf \<Longrightarrow> \<exists>cdfs. build_rc prs = Inr cdfs"
  by (induction prs) auto

lemma RandomChoice_init_Inr:
  assumes "RandomChoice_init p = Inr cdf"
  shows "p \<noteq> [] \<and> sum_list p \<noteq> 0 \<and> length cdf = length p \<and> last cdf = 1"
proof -
  have ne: "p \<noteq> []"
    using assms by (auto simp: RandomChoice_init_def Let_def cumsum_def)
  have s: "sum_list p \<noteq> 0"
    using assms ne by (auto simp: RandomChoice_init_def Let_def split: if_splits)
  show ?thesis using RandomChoice_init_ok [OF s] assms ne s by auto
qed

lemma RandomChoice_get_in_range:
  assumes "RandomChoice_init p = Inr cdf" and "u < 1"
  shows "RandomChoice_get cdf u < length p"
proof -
  have f: "p \<noteq> []" "length cdf = length p" "last cdf = 1"
    using RandomChoice_init_Inr [OF assms(1)] by simp_all
  then have ne: "cdf \<noteq> []" by auto
  have "u < cdf ! (length cdf - 1)" using f(3) ne assms(2) by (simp add: last_conv_nth)
  then have "binsearch_right cdf u 0 (length cdf) < length cdf"
    using binsearch_right_lt_length [of 0 "length cdf" cdf u] ne by simp
  then show ?thesis using f(2) by (simp add: RandomChoice_get_def searchsorted_right_def)
qed

lemma MultipleRandomChoice_init_Inr:
  assumes "MultipleRandomChoice_init mat = Inr (mat', self)"
  shows "mat \<noteq> []"
    and "mat' = transition_rows mat"
    and "nodes_number self = length mat"
    and "choices self = map (\<lambda>(j, row). row_choices j row) (enumerate 0 (transition_rows mat))"
    and "length (rc self) = length mat"
    and "\<forall>i < length mat. RandomChoice_init (row_probs (transition_rows mat ! i)) = Inr (rc self ! i)"
proof -
  show ne: "mat \<noteq> []"
    using assms
    by (auto simp: MultipleRandomChoice_init_def MultipleRandomChoice_tables_def normalize_def
        eliminate_zeros_def Let_def)
  obtain cdfs where b: "build_rc (map row_probs (transition_rows mat)) = Inr cdfs"
    and m: "mat' = transition_rows mat"
    and s: "self = \<lparr>nodes_number = length mat,
                    choices = map (\<lambda>(j, row). row_choices j row) (enumerate 0 (transition_rows mat)),
                    rc = cdfs\<rparr>"
    using assms unfolding MultipleRandomChoice_init_def MultipleRandomChoice_tables_eq [OF ne]
    by (auto split: sum.splits)
  show "mat' = transition_rows mat" by (rule m)
  show "nodes_number self = length mat" by (simp add: s)
  show "choices self = map (\<lambda>(j, row). row_choices j row) (enumerate 0 (transition_rows mat))"
    by (simp add: s)
  show "length (rc self) = length mat"
    using build_rc_Inr [OF b] by (simp add: s length_transition_rows)
  show "\<forall>i < length mat. RandomChoice_init (row_probs (transition_rows mat ! i)) = Inr (rc self ! i)"
    using build_rc_Inr [OF b] by (simp add: s length_transition_rows)
qed

lemma length_row_probs: "length (row_probs row) = length (row_choices i row)"
  by (simp add: row_probs_def row_choices_def)

lemma MultipleRandomChoice_getitem_choice:
  assumes "MultipleRandomChoice_init mat = Inr (mat', self)" and "i < length mat" and "u < 1"
  shows "\<exists>idx < length (row_choices i (transition_rows mat ! i)).
           MultipleRandomChoice_getitem self i u = Inr (row_choices i (transition_rows mat ! i) ! idx)"
proof -
  note f = MultipleRandomChoice_init_Inr [OF assms(1)]
  have ch: "choices self ! i = row_choices i (transition_rows mat ! i)"
    using assms(2) by (simp add: f(4) length_transition_rows nth_enumerate_eq)
  have lc: "length (choices self) = length mat" by (simp add: f(4) length_transition_rows)
  have "RandomChoice_init (row_probs (transition_rows mat ! i)) = Inr (rc self ! i)"
    using f(6) assms(2) by simp
  then have "RandomChoice_get (rc self ! i) u < length (row_probs (transition_rows mat ! i))"
    using assms(3) by (rule RandomChoice_get_in_range)
  then have idx: "RandomChoice_get (rc self ! i) u < length (row_choices i (transition_rows mat ! i))"
    by (simp add: length_row_probs [of _ i])
  then have "MultipleRandomChoice_getitem self i u =
             Inr (row_choices i (transition_rows mat ! i) ! RandomChoice_get (rc self ! i) u)"
    using assms(2) lc f(5) ch by (simp add: MultipleRandomChoice_getitem_def Let_def)
  then show ?thesis using idx by blast
qed

lemma transition_rows_nth:
  "i < length mat \<Longrightarrow>
     transition_rows mat ! i = normalize_row (filter (\<lambda>e. snd e \<noteq> 0) (mat ! i))"
  by (simp add: transition_rows_def eliminate_zeros_def)

lemma map_fst_normalize_row: "map fst (normalize_row row) = map fst row"
  by (simp add: normalize_row_def Let_def comp_def)

lemma row_choices_normalize_row: "row_choices i (normalize_row row) = row_choices i row"
proof -
  have "(normalize_row row = []) = (row = [])"
    using map_fst_normalize_row [of row] by (metis map_is_Nil_conv)
  then show ?thesis by (simp add: row_choices_def map_fst_normalize_row)
qed

lemma row_choices_transition_rows:
  "i < length mat \<Longrightarrow>
     row_choices i (transition_rows mat ! i) = row_choices i (filter (\<lambda>e. snd e \<noteq> 0) (mat ! i))"
  by (simp add: transition_rows_nth row_choices_normalize_row)

lemma sum_list_nonneg_member:
  "\<forall>x \<in> set xs. (0::real) \<le> x \<Longrightarrow> y \<in> set xs \<Longrightarrow> y \<le> sum_list xs"
proof (induction xs)
  case Nil
  then show ?case by simp
next
  case (Cons x xs)
  have "0 \<le> sum_list xs" using Cons.prems(1) by (simp add: sum_list_nonneg)
  then show ?case using Cons by auto
qed

lemma sum_list_pos_member:
  "\<forall>x \<in> set xs. (0::real) \<le> x \<Longrightarrow> y \<in> set xs \<Longrightarrow> 0 < y \<Longrightarrow> 0 < sum_list xs"
  using sum_list_nonneg_member [of xs y] by simp

lemma entry_pos:
  assumes "i < length mat" and "\<forall>e \<in> set (mat ! i). 0 \<le> snd e"
    and "e \<in> set (mat ! i)" and "snd e \<noteq> 0"
  shows "0 < entry mat i (fst e)"
proof -
  define vs where "vs = map snd (filter (\<lambda>e'. fst e' = fst e) (mat ! i))"
  have "\<forall>x \<in> set vs. 0 \<le> x" using assms(2) by (auto simp: vs_def)
  moreover have "snd e \<in> set vs" using assms(3) by (auto simp: vs_def)
  moreover have "0 < snd e" using assms(2,3,4) by fastforce
  ultimately have "0 < sum_list vs" by (rule sum_list_pos_member)
  then show ?thesis using assms(1) by (simp add: entry_def vs_def)
qed

text \<open>The weights of a row: non-negative entries give a vector with a positive entry.\<close>

lemma row_probs_transition_rows_pos:
  assumes "i < length mat" and "\<forall>e \<in> set (mat ! i). 0 \<le> snd e"
  shows "(\<forall>x \<in> set (row_probs (transition_rows mat ! i)). 0 < x)"
proof -
  define row where "row = filter (\<lambda>e. snd e \<noteq> 0) (mat ! i)"
  have pos: "\<forall>e \<in> set row. 0 < snd e" using assms(2) by (fastforce simp: row_def)
  have tr: "transition_rows mat ! i = normalize_row row"
    using assms(1) by (simp add: transition_rows_nth row_def)
  show ?thesis
  proof (cases "row = []")
    case True
    then show ?thesis by (simp add: tr normalize_row_def row_probs_def)
  next
    case False
    define s where "s = sum_list (map (\<lambda>e. \<bar>snd e\<bar>) row)"
    obtain e where e: "e \<in> set row" using False by (cases row) auto
    have "\<forall>x \<in> set (map (\<lambda>e. \<bar>snd e\<bar>) row). 0 \<le> x" by simp
    moreover have "\<bar>snd e\<bar> \<in> set (map (\<lambda>e. \<bar>snd e\<bar>) row)" using e by simp
    moreover have "0 < \<bar>snd e\<bar>" using pos e by fastforce
    ultimately have s: "0 < s" unfolding s_def by (rule sum_list_pos_member)
    have "normalize_row row = map (\<lambda>e. (fst e, snd e / s)) row"
      using s by (simp add: normalize_row_def s_def Let_def)
    then show ?thesis using pos s False by (auto simp: tr row_probs_def)
  qed
qed

lemma row_probs_nonempty: "row_probs row \<noteq> []"
  by (simp add: row_probs_def)

lemma RandomChoice_init_pos:
  assumes "p \<noteq> []" and "\<forall>x \<in> set p. 0 < x"
  shows "0 < sum_list p" and "\<exists>cdf. RandomChoice_init p = Inr cdf"
proof -
  obtain y where y: "y \<in> set p" using assms(1) by (cases p) auto
  have "\<forall>x \<in> set p. 0 \<le> x" using assms(2) by fastforce
  then show "0 < sum_list p" using y assms(2) by (auto intro: sum_list_pos_member)
  then show "\<exists>cdf. RandomChoice_init p = Inr cdf" using RandomChoice_init_ok [of p] by auto
qed

text \<open>For a matrix with at least one row and non-negative entries the constructor succeeds.\<close>

lemma MultipleRandomChoice_init_ok:
  assumes "mat \<noteq> []" and "\<forall>row \<in> set mat. \<forall>e \<in> set row. 0 \<le> snd e"
  shows "\<exists>self. MultipleRandomChoice_init mat = Inr (transition_rows mat, self)"
proof -
  have "\<forall>p \<in> set (map row_probs (transition_rows mat)). \<exists>cdf. RandomChoice_init p = Inr cdf"
  proof
    fix p assume "p \<in> set (map row_probs (transition_rows mat))"
    then obtain i where i: "i < length mat" and p: "p = row_probs (transition_rows mat ! i)"
      by (auto simp: in_set_conv_nth length_transition_rows)
    have "\<forall>e \<in> set (mat ! i). 0 \<le> snd e" using assms(2) nth_mem [OF i] by blast
    then have "\<forall>x \<in> set p. 0 < x" unfolding p by (rule row_probs_transition_rows_pos [OF i])
    then show "\<exists>cdf. RandomChoice_init p = Inr cdf"
      using RandomChoice_init_pos(2) [of p] row_probs_nonempty p by simp
  qed
  then obtain cdfs where "build_rc (map row_probs (transition_rows mat)) = Inr cdfs"
    using build_rc_ok by blast
  then show ?thesis
    by (simp add: MultipleRandomChoice_init_def MultipleRandomChoice_tables_eq [OF assms(1)])
qed





section \<open>Properties of the generators\<close>

lemma loop_from_end:
  "loop_from N sampler K I B i g = (out, it', g') \<Longrightarrow> out = StopIteration \<or> (\<exists>e. out = Raise e) \<Longrightarrow>
     it' = Closed"
  by (auto simp: loop_from_def split: if_splits sum.splits)

lemma generator_next_end:
  "generator_next it g = (out, it', g') \<Longrightarrow> out = StopIteration \<or> (\<exists>e. out = Raise e) \<Longrightarrow>
     it' = Closed"
proof (cases it)
  case (Created X K I B)
  assume a: "generator_next it g = (out, it', g')" "out = StopIteration \<or> (\<exists>e. out = Raise e)"
  show ?thesis
  proof (cases "MultipleRandomChoice_init X")
    case (Inl e)
    then show ?thesis using a Created by simp
  next
    case (Inr r)
    then show ?thesis using a Created loop_from_end by (cases r) auto
  qed
next
  case (Suspended N sampler K I B i)
  assume "generator_next it g = (out, it', g')" "out = StopIteration \<or> (\<exists>e. out = Raise e)"
  then show ?thesis using Suspended loop_from_end by auto
next
  case Closed
  assume "generator_next it g = (out, it', g')"
  then show ?thesis using Closed by simp
qed

lemma run_generator_Closed: "run generator_next n Closed g = replicate n StopIteration"
  by (induction n) auto

lemma run_async_Closed: "run async_next n AsyncClosed g = replicate n StopIteration"
  by (induction n) auto

lemma run_async_Suspended:
  "generator_next it g = (out, it', g') \<Longrightarrow>
     run async_next n (AsyncSuspended out it') g' = run generator_next n it g"
proof (induction n arbitrary: it g out it' g')
  case 0
  then show ?case by simp
next
  case (Suc n)
  show ?case
  proof (cases out)
    case (Yield b)
    obtain out2 it2 g2 where nx: "generator_next it' g' = (out2, it2, g2)"
      by (cases "generator_next it' g'") auto
    have "run async_next n (AsyncSuspended out2 it2) g2 = run generator_next n it' g'"
      by (rule Suc.IH [OF nx])
    then show ?thesis using Suc.prems Yield nx by (simp add: async_loop_def truthy_def)
  next
    case StopIteration
    then have "it' = Closed" using generator_next_end [OF Suc.prems] by simp
    then show ?thesis
      using Suc.prems StopIteration by (simp add: run_generator_Closed run_async_Closed)
  next
    case (Raise e)
    then have "it' = Closed" using generator_next_end [OF Suc.prems] by simp
    then show ?thesis
      using Suc.prems Raise by (simp add: run_generator_Closed run_async_Closed)
  qed
qed



lemma randint_Inr:
  "randint high n g = Inr (xs, g') \<Longrightarrow> length xs = n"
  by (auto simp: randint_def raw_values_def split: if_splits)

lemma positive_targets_Inr:
  "positive_targets sampler ss g = Inr (vs, g') \<Longrightarrow> length vs = length ss"
  by (induction ss arbitrary: g vs g') (auto split: sum.splits)


lemma mset_shuffle_from:
  "i < length xs \<Longrightarrow> mset (fst (shuffle_from i xs g)) = mset xs"
proof (induction i arbitrary: xs g)
  case 0
  then show ?case by simp
next
  case (Suc i)
  define j where "j = entropy g (position g) mod (Suc i + 1)"
  have j: "j < length xs" using Suc.prems by (simp add: j_def less_Suc_eq_le mod_le_divisor
        le_less_trans [OF _ Suc.prems] )
  define ys where "ys = xs[Suc i := xs ! j, j := xs ! Suc i]"
  have "mset ys = mset xs" unfolding ys_def using mset_swap [OF j Suc.prems] by simp
  moreover have "i < length ys" using Suc.prems by (simp add: ys_def)
  ultimately have "mset (fst (shuffle_from i ys (g\<lparr>position := position g + 1\<rparr>))) = mset xs"
    using Suc.IH [of ys] by simp
  then show ?case by (simp add: Let_def j_def ys_def)
qed

lemma mset_shuffle: "mset (fst (shuffle xs g)) = mset xs"
proof (cases xs)
  case Nil
  then show ?thesis by (simp add: shuffle_def)
next
  case (Cons x xs')
  then show ?thesis by (simp add: shuffle_def mset_shuffle_from)
qed

lemma length_concat_replicate: "length (concat (replicate n xs)) = n * length xs"
  by (induction n) auto


lemma draw_batch_Inr:
  assumes "draw_batch N sampler K B g = Inr ((us, vs, xs), g')"
  shows "length us = B * (1 + K)" and "length vs = B * (1 + K)"
    and "xs = replicate B 1 @ replicate (B * K) (- 1)"
proof -
  obtain drawn g1 batch_v g2 negatives where
    d: "randint N B g = Inr (drawn, g1)"
    and p: "positive_targets sampler (take B (concat (replicate (K + 1) drawn))) g1 = Inr (batch_v, g2)"
    and n: "randint N (B * K) g2 = Inr (negatives, g')"
    and us: "us = concat (replicate (K + 1) drawn)"
    and vs: "vs = batch_v @ negatives"
    and xs: "xs = replicate B 1 @ replicate (B * K) (- 1)"
    using assms by (auto simp: draw_batch_def Let_def split: sum.splits)
  have ld: "length drawn = B" by (rule randint_Inr [OF d])
  show "length us = B * (1 + K)" by (simp add: us length_concat_replicate ld)
  have "length batch_v = B"
    using positive_targets_Inr [OF p] by (simp add: length_concat_replicate ld)
  then show "length vs = B * (1 + K)" using randint_Inr [OF n] by (simp add: vs)
  show "xs = replicate B 1 @ replicate (B * K) (- 1)" by (rule xs)
qed

lemma fancy_index_perm:
  assumes "mset p = mset [0..<length xs]"
  shows "fancy_index xs p = Inr (map (\<lambda>i. xs ! i) p)"
proof -
  have "set p = set [0..<length xs]" using assms by (rule mset_eq_setD)
  then show ?thesis by (simp add: fancy_index_def)
qed

lemma shuffle_batch_eq:
  assumes "length us = length xs" and "length vs = length xs"
  shows "shuffle_batch (us, vs, xs) g =
           Inr ((map (\<lambda>i. us ! i) (fst (shuffle [0..<length xs] g)),
                 map (\<lambda>i. vs ! i) (fst (shuffle [0..<length xs] g)),
                 map (\<lambda>i. xs ! i) (fst (shuffle [0..<length xs] g))),
                snd (shuffle [0..<length xs] g))"
proof -
  define p where "p = fst (shuffle [0..<length xs] g)"
  have p: "mset p = mset [0..<length xs]" by (simp add: p_def mset_shuffle)
  have "fancy_index us p = Inr (map (\<lambda>i. us ! i) p)"
    using fancy_index_perm [of p us] p assms(1) by simp
  moreover have "fancy_index vs p = Inr (map (\<lambda>i. vs ! i) p)"
    using fancy_index_perm [of p vs] p assms(2) by simp
  moreover have "fancy_index xs p = Inr (map (\<lambda>i. xs ! i) p)"
    using fancy_index_perm [of p xs] p by simp
  ultimately show ?thesis by (simp add: shuffle_batch_def Let_def p_def)
qed

lemma zip_map_nth:
  "zip (map f p) (zip (map g p) (map h p)) = map (\<lambda>i. (f i, g i, h i)) p"
  by (induction p) auto

lemma mset_zip_permuted:
  assumes "mset p = mset [0..<length xs]" and "length us = length xs" and "length vs = length xs"
  shows "mset (zip (map (\<lambda>i. us ! i) p) (zip (map (\<lambda>i. vs ! i) p) (map (\<lambda>i. xs ! i) p))) =
         mset (zip us (zip vs xs))"
proof -
  define F where "F = (\<lambda>i. (us ! i, vs ! i, xs ! i))"
  have "map F [0..<length xs] = zip us (zip vs xs)"
    using assms(2,3) by (intro nth_equalityI) (simp_all add: F_def)
  moreover have "mset (map F p) = mset (map F [0..<length xs])"
    using assms(1) by (metis mset_map)
  ultimately show ?thesis by (simp add: zip_map_nth F_def)
qed

lemma generator_next_Yield:
  assumes "generator_next gen g = (Yield b, gen', g')"
  shows "\<exists>N sampler I i.
           next_batch N sampler (number_negative_of gen) (batch_size_of gen) g = Inr (b, g') \<and>
           gen' = Suspended N sampler (number_negative_of gen) I (batch_size_of gen) i"
proof (cases gen)
  case (Created X K I B)
  show ?thesis
  proof (cases "MultipleRandomChoice_init X")
    case (Inl e)
    then show ?thesis using assms Created by simp
  next
    case (Inr r)
    obtain X' sampler where r: "r = (X', sampler)" by (cases r) auto
    have "loop_from (length X) sampler K I B 0 g = (Yield b, gen', g')"
      using assms Created Inr r by simp
    then show ?thesis
      using Created by (auto simp: loop_from_def split: if_splits sum.splits)
  qed
next
  case (Suspended N sampler K I B i)
  then have "loop_from N sampler K I B (Suc i) g = (Yield b, gen', g')" using assms by simp
  then show ?thesis
    using Suspended by (auto simp: loop_from_def split: if_splits sum.splits)
next
  case Closed
  then show ?thesis using assms by simp
qed




section \<open>Claims about RandomChoice\<close>

text \<open>
  Claim C3, as the code has it. For every vector of non-negative weights with a positive
  sum and every uniform sample \<open>u\<close> in \<open>[0, 1)\<close>, the constructor succeeds and
  \<^verbatim>\<open>RandomChoice.get\<close> returns the index of the first cumulative-sum entry that is
  strictly greater than \<open>u\<close>: the entry at the returned index is above \<open>u\<close> and every
  entry before it is at most \<open>u\<close>. A sample equal to a cumulative sum selects the next
  entry, not that one.
\<close>

theorem RandomChoice_get_first_greater:
  assumes "\<forall>x \<in> set p. 0 \<le> x" and "0 < sum_list p" and "0 \<le> u" and "u < 1"
  shows "\<exists>cdf. RandomChoice_init p = Inr cdf \<and> length cdf = length p \<and>
           RandomChoice_get cdf u < length cdf \<and>
           u < cdf ! RandomChoice_get cdf u \<and>
           (\<forall>j < RandomChoice_get cdf u. cdf ! j \<le> u)"
proof -
  obtain cdf where cdf: "RandomChoice_init p = Inr cdf" "length cdf = length p" "last cdf = 1"
    using RandomChoice_init_ok [of p] assms(2) by auto
  have sorted: "sorted cdf" using RandomChoice_init_sorted [OF assms(1) cdf(1)] .
  have ne: "cdf \<noteq> []" using cdf(2) assms(2) by auto
  have lastgt: "u < cdf ! (length cdf - 1)" using cdf(3) ne assms(4) by (simp add: last_conv_nth)
  define r where "r = RandomChoice_get cdf u"
  have r: "r = binsearch_right cdf u 0 (length cdf)"
    by (simp add: r_def RandomChoice_get_def searchsorted_right_def)
  have rlt: "r < length cdf"
    unfolding r using binsearch_right_lt_length [of 0 "length cdf" cdf u] ne lastgt by simp
  have both: "(\<forall>j < r. cdf ! j \<le> u) \<and> (\<forall>j. r \<le> j \<and> j < length cdf \<longrightarrow> u < cdf ! j)"
    unfolding r using binsearch_right_sorted [of cdf 0 "length cdf" u] sorted by simp
  then have "u < cdf ! r" using rlt by blast
  then show ?thesis using cdf rlt both unfolding r_def by blast
qed

text \<open>
  The weights \<open>[1, 1]\<close> have the cdf \<open>[1/2, 1]\<close>. At the sample \<open>1/2\<close> the theorem gives an
  index inside the table whose entry is above the sample.
\<close>

theorem RandomChoice_get_first_greater_witness:
  "RandomChoice_init [1, 1] = Inr [1 / 2, 1] \<and>
   RandomChoice_get [1 / 2, 1] (1 / 2) < length [1 / 2, 1 :: real] \<and>
   1 / 2 < [1 / 2, 1 :: real] ! RandomChoice_get [1 / 2, 1] (1 / 2)"
proof -
  have init: "RandomChoice_init [1, 1] = Inr [1 / 2, 1]"
    by (simp add: RandomChoice_init_def cumsum_def Let_def)
  have "\<exists>cdf. RandomChoice_init [1, 1] = Inr cdf \<and> length cdf = length [1, 1 :: real] \<and>
           RandomChoice_get cdf (1 / 2) < length cdf \<and>
           1 / 2 < cdf ! RandomChoice_get cdf (1 / 2) \<and>
           (\<forall>j < RandomChoice_get cdf (1 / 2). cdf ! j \<le> 1 / 2)"
    by (rule RandomChoice_get_first_greater) simp_all
  then show ?thesis using init by auto
qed

text \<open>
  Claim C3 as the specification words it fails on a tie. With the weights \<open>[1, 1]\<close> and the
  sample \<open>1/2\<close>, the first cumulative-sum entry that is \<open>\<ge>\<close> the sample is entry 0 (it is
  equal to the sample), and \<^verbatim>\<open>get\<close> returns 1.
\<close>

theorem RandomChoice_get_tie_counterexample:
  "RandomChoice_init [1, 1] = Inr [1 / 2, 1] \<and>
   (0 :: real) < sum_list [1, 1] \<and> (0 :: real) \<le> 1 / 2 \<and> (1 / 2 :: real) < 1 \<and>
   spec_first_ge [1 / 2, 1] (1 / 2) = 0 \<and>
   RandomChoice_get [1 / 2, 1] (1 / 2) = 1"
  by (simp add: RandomChoice_init_def cumsum_def Let_def spec_first_ge_def
      RandomChoice_get_def searchsorted_right_def binsearch_right.simps)

section \<open>Claims about MultipleRandomChoice\<close>

text \<open>
  Claim C5. Once the object is constructed from a matrix \<open>M\<close>, for every row \<open>i\<close> of \<open>M\<close>
  whose stored entries are all zero (none stored, or explicit zeros only) and every uniform
  sample in \<open>[0, 1)\<close>, \<^verbatim>\<open>__getitem__(i)\<close> returns \<open>i\<close>. In particular, for the matrix
  \<open>[[0, 1], [0, 0]]\<close> (one stored entry: row 0, column 1, weight 1) the object is
  constructed and both \<^verbatim>\<open>sample(1)\<close> and \<^verbatim>\<open>sample(0)\<close> return 1 at every sample.
\<close>

theorem zero_row_returns_itself:
  "(MultipleRandomChoice_init M = Inr (M', self) \<and> i < length M \<and>
      (\<forall>e \<in> set (M ! i). snd e = 0) \<and> 0 \<le> u \<and> u < 1
    \<longrightarrow> MultipleRandomChoice_getitem self i u = Inr i) \<and>
   (\<exists>X' random_choice. MultipleRandomChoice_init [[(1, 1)], []] = Inr (X', random_choice) \<and>
      (\<forall>v. 0 \<le> v \<and> v < 1 \<longrightarrow>
         MultipleRandomChoice_getitem random_choice 1 v = Inr 1 \<and>
         MultipleRandomChoice_getitem random_choice 0 v = Inr 1))"
proof (intro conjI impI)
  assume a: "MultipleRandomChoice_init M = Inr (M', self) \<and> i < length M \<and>
      (\<forall>e \<in> set (M ! i). snd e = 0) \<and> 0 \<le> u \<and> u < 1"
  then have "filter (\<lambda>e. snd e \<noteq> 0) (M ! i) = []" by (simp add: filter_empty_conv)
  then have "row_choices i (filter (\<lambda>e. snd e \<noteq> 0) (M ! i)) = [i]"
    by (simp add: row_choices_def)
  then have "row_choices i (transition_rows M ! i) = [i]"
    using a row_choices_transition_rows [of i M] by simp
  then show "MultipleRandomChoice_getitem self i u = Inr i"
    using MultipleRandomChoice_getitem_choice [of M M' self i u] a by auto
next
  define X :: sparse where "X = [[(1, 1)], []]"
  have "X \<noteq> []" "\<forall>row \<in> set X. \<forall>e \<in> set row. 0 \<le> snd e" by (simp_all add: X_def)
  then obtain random_choice where
    init: "MultipleRandomChoice_init X = Inr (transition_rows X, random_choice)"
    using MultipleRandomChoice_init_ok by blast
  have c1: "row_choices 1 (transition_rows X ! 1) = [1]"
    by (simp add: transition_rows_def eliminate_zeros_def normalize_row_def X_def row_choices_def)
  have c0: "row_choices 0 (transition_rows X ! 0) = [1]"
    by (simp add: transition_rows_def eliminate_zeros_def normalize_row_def X_def row_choices_def)
  have "\<forall>v. 0 \<le> v \<and> v < 1 \<longrightarrow>
         MultipleRandomChoice_getitem random_choice 1 v = Inr 1 \<and>
         MultipleRandomChoice_getitem random_choice 0 v = Inr 1"
  proof (intro allI impI conjI)
    fix v :: real assume v: "0 \<le> v \<and> v < 1"
    show "MultipleRandomChoice_getitem random_choice 1 v = Inr 1"
      using MultipleRandomChoice_getitem_choice [OF init, of 1 v] v c1 by (auto simp: X_def)
    show "MultipleRandomChoice_getitem random_choice 0 v = Inr 1"
      using MultipleRandomChoice_getitem_choice [OF init, of 0 v] v c0 by (auto simp: X_def)
  qed
  then show "\<exists>X' random_choice. MultipleRandomChoice_init [[(1, 1)], []] = Inr (X', random_choice) \<and>
      (\<forall>v. 0 \<le> v \<and> v < 1 \<longrightarrow>
         MultipleRandomChoice_getitem random_choice 1 v = Inr 1 \<and>
         MultipleRandomChoice_getitem random_choice 0 v = Inr 1)"
    using init unfolding X_def by blast
qed

text \<open>
  The matrix \<open>[[0, 1], [0, 0]]\<close> with an explicit zero stored in row 1: the constructor
  drops the zero, and row 1 answers 1 at the sample \<open>1/4\<close>.
\<close>

theorem zero_row_returns_itself_witness:
  "MultipleRandomChoice_init [[(1, 1)], [(0, 0)]] =
     Inr ([[(1, 1)], []], \<lparr>nodes_number = 2, choices = [[1], [1]], rc = [[1], [1]]\<rparr>) \<and>
   (1 :: nat) < length [[(1 :: nat, 1 :: real)], [(0, 0)]] \<and> (0 :: real) \<le> 1 / 4 \<and> (1 / 4 :: real) < 1 \<and>
   MultipleRandomChoice_getitem \<lparr>nodes_number = 2, choices = [[1], [1]], rc = [[1], [1]]\<rparr> 1 (1 / 4) = Inr 1"
proof -
  have init: "MultipleRandomChoice_init [[(1, 1)], [(0, 0)]] =
     Inr ([[(1, 1)], []], \<lparr>nodes_number = 2, choices = [[1], [1]], rc = [[1], [1]]\<rparr>)"
    by (simp add: MultipleRandomChoice_init_def MultipleRandomChoice_tables_def eliminate_zeros_def
      normalize_def normalize_row_def nonzero_def data_def enumerate_eq_zip Let_def
      fill_tables.simps row_transitions.simps RandomChoice_init_def cumsum_def)
  show ?thesis
    using init
      zero_row_returns_itself [of "[[(1, 1)], [(0, 0)]]" "[[(1, 1)], []]"
        "\<lparr>nodes_number = 2, choices = [[1], [1]], rc = [[1], [1]]\<rparr>" 1 "1 / 4"]
    by simp
qed

text \<open>
  Claim C6. Once the object is constructed from a matrix \<open>M\<close>, for every row \<open>i\<close> with
  non-negative entries of which at least one is not zero, and every uniform sample in
  \<open>[0, 1)\<close>, \<^verbatim>\<open>__getitem__(i)\<close> returns a column \<open>j\<close> with \<open>M[i][j] > 0\<close>, in the
  matrix as passed and in the matrix as the constructor leaves it: a column with zero
  weight is never returned.
\<close>

theorem nonzero_row_returns_positive_column:
  assumes "MultipleRandomChoice_init M = Inr (M', self)" and "i < length M"
    and "\<forall>e \<in> set (M ! i). 0 \<le> snd e" and "\<exists>e \<in> set (M ! i). snd e \<noteq> 0"
    and "0 \<le> u" and "u < 1"
  shows "\<exists>j. MultipleRandomChoice_getitem self i u = Inr j \<and> 0 < entry M i j \<and> 0 < entry M' i j"
proof -
  define row where "row = filter (\<lambda>e. snd e \<noteq> 0) (M ! i)"
  have ne: "row \<noteq> []" using assms(4) by (auto simp: row_def filter_empty_conv)
  have ch: "row_choices i (transition_rows M ! i) = map fst row"
    using row_choices_transition_rows [OF assms(2)] ne by (simp add: row_def row_choices_def)
  obtain idx where idx: "idx < length row"
    and g: "MultipleRandomChoice_getitem self i u = Inr (map fst row ! idx)"
    using MultipleRandomChoice_getitem_choice [OF assms(1,2,6)] unfolding ch by auto
  define e where "e = row ! idx"
  have "e \<in> set row" using idx by (simp add: e_def)
  then have e: "e \<in> set (M ! i)" "snd e \<noteq> 0" by (simp_all add: row_def)
  have j: "MultipleRandomChoice_getitem self i u = Inr (fst e)" using g idx by (simp add: e_def)
  have pos: "0 < entry M i (fst e)" by (rule entry_pos [OF assms(2,3) e])
  have M': "M' = transition_rows M" by (rule MultipleRandomChoice_init_Inr(2) [OF assms(1)])
  have i': "i < length M'" using assms(2) by (simp add: M' length_transition_rows)
  have tr: "M' ! i = normalize_row row"
    using assms(2) by (simp add: M' transition_rows_nth row_def)
  have nn: "\<forall>x \<in> set (row_probs (M' ! i)). 0 < x"
    unfolding M' by (rule row_probs_transition_rows_pos [OF assms(2,3)])
  have nne: "normalize_row row \<noteq> []"
    using map_fst_normalize_row [of row] ne by (metis map_is_Nil_conv)
  then have rp: "row_probs (M' ! i) = map snd (M' ! i)" by (simp add: tr row_probs_def)
  have nn': "\<forall>e' \<in> set (M' ! i). 0 \<le> snd e'" using nn unfolding rp by fastforce
  define e' where "e' = normalize_row row ! idx"
  have len: "length (normalize_row row) = length row"
    using map_fst_normalize_row [of row] by (metis length_map)
  have fe: "fst e' = fst e"
  proof -
    have "map fst (normalize_row row) ! idx = map fst row ! idx"
      by (simp add: map_fst_normalize_row)
    then show ?thesis using idx len by (simp add: e'_def e_def)
  qed
  have mem: "e' \<in> set (M' ! i)" using idx len by (simp add: tr e'_def)
  then have "snd e' \<in> set (row_probs (M' ! i))" unfolding rp by simp
  then have "snd e' \<noteq> 0" using nn by fastforce
  then have "0 < entry M' i (fst e')" by (rule entry_pos [OF i' nn' mem])
  then show ?thesis using j pos fe by auto
qed

text \<open>
  Row 0 stores an explicit zero in column 0 and the weights 3 and 1 in columns 1 and 2.
  At the sample \<open>3/4\<close>, which is the first cumulative sum, the row answers column 2.
\<close>

theorem nonzero_row_returns_positive_column_witness:
  "MultipleRandomChoice_init [[(0, 0), (1, 3), (2, 1)], [], [(0, 2)]] =
     Inr ([[(1, 3 / 4), (2, 1 / 4)], [], [(0, 1)]],
          \<lparr>nodes_number = 3, choices = [[1, 2], [1], [0]], rc = [[3 / 4, 1], [1], [1]]\<rparr>) \<and>
   MultipleRandomChoice_getitem
     \<lparr>nodes_number = 3, choices = [[1, 2], [1], [0]], rc = [[3 / 4, 1], [1], [1]]\<rparr> 0 (3 / 4) = Inr 2 \<and>
   0 < entry [[(0, 0), (1, 3), (2, 1)], [], [(0, 2)]] 0 2"
proof -
  define M :: sparse where "M = [[(0, 0), (1, 3), (2, 1)], [], [(0, 2)]]"
  define self where
    "self = \<lparr>nodes_number = 3, choices = [[1, 2], [1], [0]], rc = [[3 / 4, 1 :: real], [1], [1]]\<rparr>"
  have init: "MultipleRandomChoice_init M = Inr ([[(1, 3 / 4), (2, 1 / 4)], [], [(0, 1)]], self)"
    by (simp add: M_def self_def MultipleRandomChoice_init_def MultipleRandomChoice_tables_def
      eliminate_zeros_def normalize_def normalize_row_def nonzero_def data_def enumerate_eq_zip
      Let_def fill_tables.simps row_transitions.simps RandomChoice_init_def cumsum_def)
  have get: "MultipleRandomChoice_getitem self 0 (3 / 4) = Inr 2"
    by (simp add: self_def MultipleRandomChoice_getitem_def RandomChoice_get_def
      searchsorted_right_def binsearch_right.simps Let_def)
  have "\<exists>j. MultipleRandomChoice_getitem self 0 (3 / 4) = Inr j \<and> 0 < entry M 0 j \<and>
          0 < entry [[(1, 3 / 4), (2, 1 / 4)], [], [(0, 1)]] 0 j"
    by (rule nonzero_row_returns_positive_column [OF init]) (simp_all add: M_def)
  then have "0 < entry M 0 2" using get by auto
  then show ?thesis using init get unfolding M_def self_def by simp
qed








section \<open>Claims about the generators\<close>

text \<open>
  Claim C4. For every matrix, parameters and random state, and every number \<open>n\<close> of
  successive calls of \<^verbatim>\<open>next\<close>, \<^verbatim>\<open>async_batches\<close> gives the same outcomes in the same
  order as \<^verbatim>\<open>generate_batches\<close> with the same parameters from the same random state: the
  same batches, then the same end of sequence (or the same exception), and only
  StopIteration after that. The worker's look-ahead call is modelled where it is submitted.
\<close>

theorem async_batches_same_sequence:
  "run async_next n (async_batches X number_negative number_iterations batch_size) g =
   run generator_next n (generate_batches X number_negative number_iterations batch_size) g"
proof (cases n)
  case 0
  then show ?thesis by simp
next
  case (Suc m)
  define it where "it = generate_batches X number_negative number_iterations batch_size"
  obtain out it' g' where nx: "generator_next it g = (out, it', g')"
    by (cases "generator_next it g") auto
  show ?thesis
  proof (cases out)
    case (Yield b)
    obtain out2 it2 g2 where nx2: "generator_next it' g' = (out2, it2, g2)"
      by (cases "generator_next it' g'") auto
    have "run async_next m (AsyncSuspended out2 it2) g2 = run generator_next m it' g'"
      by (rule run_async_Suspended [OF nx2])
    then show ?thesis
      using Suc nx Yield nx2
      by (simp add: async_batches_def it_def [symmetric] async_loop_def truthy_def)
  next
    case StopIteration
    then have "it' = Closed" using generator_next_end [OF nx] by simp
    then show ?thesis
      using Suc nx StopIteration
      by (simp add: async_batches_def it_def [symmetric] run_generator_Closed run_async_Closed)
  next
    case (Raise e)
    then have "it' = Closed" using generator_next_end [OF nx] by simp
    then show ?thesis
      using Suc nx Raise
      by (simp add: async_batches_def it_def [symmetric] run_generator_Closed run_async_Closed)
  qed
qed

text \<open>
  Claim C8. Every batch that \<^verbatim>\<open>generate_batches\<close> yields is made by the loop body with
  the generator's \<open>number_negative\<close> and \<open>batch_size\<close>, which the generator keeps. Every
  batch the loop body makes consists of three sequences of length
  \<open>batch_size * (1 + number_negative)\<close>; they are the three sequences drawn before the
  shuffle, read at one and the same permutation of the indices, so the multiset of
  (source, target, label) triples is the same before and after the shuffle.
\<close>

theorem batches_aligned_after_shuffle:
  "(generator_next gen g = (Yield b, gen', g') \<longrightarrow>
      (\<exists>N sampler. next_batch N sampler (number_negative_of gen) (batch_size_of gen) g = Inr (b, g')) \<and>
      number_negative_of gen' = number_negative_of gen \<and> batch_size_of gen' = batch_size_of gen) \<and>
   (next_batch N sampler K B g = Inr ((us, vs, xs), g') \<longrightarrow>
      length us = B * (1 + K) \<and> length vs = B * (1 + K) \<and> length xs = B * (1 + K) \<and>
      (\<exists>u0 v0 x0 g0.
         draw_batch N sampler K B g = Inr ((u0, v0, x0), g0) \<and>
         mset (fst (shuffle [0..<B * (1 + K)] g0)) = mset [0..<B * (1 + K)] \<and>
         us = map (\<lambda>i. u0 ! i) (fst (shuffle [0..<B * (1 + K)] g0)) \<and>
         vs = map (\<lambda>i. v0 ! i) (fst (shuffle [0..<B * (1 + K)] g0)) \<and>
         xs = map (\<lambda>i. x0 ! i) (fst (shuffle [0..<B * (1 + K)] g0)) \<and>
         mset (zip us (zip vs xs)) = mset (zip u0 (zip v0 x0))))"
proof (rule conjI; rule impI)
  assume a: "generator_next gen g = (Yield b, gen', g')"
  from generator_next_Yield [OF a]
  show "(\<exists>N sampler. next_batch N sampler (number_negative_of gen) (batch_size_of gen) g = Inr (b, g')) \<and>
      number_negative_of gen' = number_negative_of gen \<and> batch_size_of gen' = batch_size_of gen"
    by auto
next
  assume a: "next_batch N sampler K B g = Inr ((us, vs, xs), g')"
  define L where "L = B * (1 + K)"
  obtain u0 v0 x0 g0 where d: "draw_batch N sampler K B g = Inr ((u0, v0, x0), g0)"
    and s: "shuffle_batch (u0, v0, x0) g0 = Inr ((us, vs, xs), g')"
    using a by (auto simp: next_batch_def split: sum.splits)
  have len: "length u0 = L" "length v0 = L" "length x0 = L"
    using draw_batch_Inr [OF d] by (simp_all add: L_def)
  define p where "p = fst (shuffle [0..<L] g0)"
  have p: "mset p = mset [0..<L]" by (simp add: p_def mset_shuffle)
  have eq: "us = map (\<lambda>i. u0 ! i) p" "vs = map (\<lambda>i. v0 ! i) p" "xs = map (\<lambda>i. x0 ! i) p"
    using s shuffle_batch_eq [of u0 x0 v0 g0] len by (simp_all add: p_def)
  have lp: "length p = L" using p by (metis length_upt mset_eq_length minus_nat.diff_0)
  have ms: "mset (zip us (zip vs xs)) = mset (zip u0 (zip v0 x0))"
    unfolding eq using mset_zip_permuted [of p x0 u0 v0] p len by simp
  have lens: "length us = L" "length vs = L" "length xs = L" using lp by (simp_all add: eq)
  have "length us = L \<and> length vs = L \<and> length xs = L \<and>
      (\<exists>u0 v0 x0 g0.
         draw_batch N sampler K B g = Inr ((u0, v0, x0), g0) \<and>
         mset (fst (shuffle [0..<L] g0)) = mset [0..<L] \<and>
         us = map (\<lambda>i. u0 ! i) (fst (shuffle [0..<L] g0)) \<and>
         vs = map (\<lambda>i. v0 ! i) (fst (shuffle [0..<L] g0)) \<and>
         xs = map (\<lambda>i. x0 ! i) (fst (shuffle [0..<L] g0)) \<and>
         mset (zip us (zip vs xs)) = mset (zip u0 (zip v0 x0)))"
    using lens d p eq ms unfolding p_def by blast
  then show "length us = B * (1 + K) \<and> length vs = B * (1 + K) \<and> length xs = B * (1 + K) \<and>
      (\<exists>u0 v0 x0 g0.
         draw_batch N sampler K B g = Inr ((u0, v0, x0), g0) \<and>
         mset (fst (shuffle [0..<B * (1 + K)] g0)) = mset [0..<B * (1 + K)] \<and>
         us = map (\<lambda>i. u0 ! i) (fst (shuffle [0..<B * (1 + K)] g0)) \<and>
         vs = map (\<lambda>i. v0 ! i) (fst (shuffle [0..<B * (1 + K)] g0)) \<and>
         xs = map (\<lambda>i. x0 ! i) (fst (shuffle [0..<B * (1 + K)] g0)) \<and>
         mset (zip us (zip vs xs)) = mset (zip u0 (zip v0 x0)))"
    unfolding L_def .
qed

text \<open>
  Two nodes joined by an edge, one negative per positive, batches of one pair, and a random
  source that always reads 0: the shuffle swaps the two positions of all three sequences.
\<close>

theorem batches_aligned_after_shuffle_witness:
  "generator_next (Created [[(1, 1)], [(0, 1)]] 1 1 1) \<lparr>entropy = \<lambda>n. 0, position = 0\<rparr> =
     (Yield ([0, 0], [0, 1], [- 1, 1]),
      Suspended 2 \<lparr>nodes_number = 2, choices = [[1], [0]], rc = [[1], [1]]\<rparr> 1 1 1 0,
      \<lparr>entropy = \<lambda>n. 0, position = 4\<rparr>) \<and>
   draw_batch 2 \<lparr>nodes_number = 2, choices = [[1], [0]], rc = [[1], [1]]\<rparr> 1 1
       \<lparr>entropy = \<lambda>n. 0, position = 0\<rparr> =
     Inr (([0, 0], [1, 0], [1, - 1]), \<lparr>entropy = \<lambda>n. 0, position = 3\<rparr>) \<and>
   length [0, 0 :: nat] = 1 * (1 + 1) \<and>
   mset (zip [0, 0 :: nat] (zip [0, 1 :: nat] [- 1, 1 :: real])) =
   mset (zip [0, 0 :: nat] (zip [1, 0 :: nat] [1, - 1 :: real]))"
proof -
  define sampler where
    "sampler = \<lparr>nodes_number = 2, choices = [[1], [0]], rc = [[1 :: real], [1]]\<rparr>"
  define g :: rng where "g = \<lparr>entropy = \<lambda>n. 0, position = 0\<rparr>"
  define g' :: rng where "g' = \<lparr>entropy = \<lambda>n. 0, position = 4\<rparr>"
  have init: "MultipleRandomChoice_init [[(1, 1)], [(0, 1)]] = Inr ([[(1, 1)], [(0, 1)]], sampler)"
    by (simp add: sampler_def MultipleRandomChoice_init_def MultipleRandomChoice_tables_def
      eliminate_zeros_def normalize_def normalize_row_def nonzero_def data_def enumerate_eq_zip
      Let_def fill_tables.simps row_transitions.simps RandomChoice_init_def cumsum_def)
  have nb: "next_batch 2 sampler 1 1 g = Inr (([0, 0], [0, 1], [- 1, 1]), g')"
    by (simp add: sampler_def g_def g'_def next_batch_def shuffle_batch_def shuffle_def fancy_index_def
      draw_batch_def randint_def raw_values_def random_sample_def
      MultipleRandomChoice_getitem_def RandomChoice_get_def searchsorted_right_def
      binsearch_right.simps Let_def)
  have db: "draw_batch 2 sampler 1 1 g =
              Inr (([0, 0], [1, 0], [1, - 1]), \<lparr>entropy = \<lambda>n. 0, position = 3\<rparr>)"
    by (simp add: sampler_def g_def next_batch_def shuffle_batch_def shuffle_def fancy_index_def
      draw_batch_def randint_def raw_values_def random_sample_def
      MultipleRandomChoice_getitem_def RandomChoice_get_def searchsorted_right_def
      binsearch_right.simps Let_def)
  have gn: "generator_next (Created [[(1, 1)], [(0, 1)]] 1 1 1) g =
              (Yield ([0, 0], [0, 1], [- 1, 1]), Suspended 2 sampler 1 1 1 0, g')"
    using init nb by (simp add: loop_from_def numeral_2_eq_2)
  have "length [0, 0 :: nat] = 1 * (1 + 1) \<and>
        mset (zip [0, 0 :: nat] (zip [0, 1 :: nat] [- 1, 1 :: real])) =
        mset (zip [0, 0 :: nat] (zip [1, 0 :: nat] [1, - 1 :: real]))"
    using batches_aligned_after_shuffle
      [of "Created [[(1, 1)], [(0, 1)]] 1 1 1" g "([0, 0], [0, 1], [- 1, 1])"
          "Suspended 2 sampler 1 1 1 0" g' 2 sampler 1 1 "[0, 0]" "[0, 1]" "[- 1, 1]"]
      nb db
    by auto
  then show ?thesis using gn db unfolding sampler_def g_def g'_def by simp
qed



text \<open>
  Claim C1 at a concrete input. Two nodes joined by an edge (node 0 has the single
  neighbour 1), \<open>number_negative = 1\<close>, \<open>batch_size = 1\<close>, and a random source that reads
  0, 1, 2, ...: the source node is 0, the target drawn from its row is 1, the uniform
  target is 0, and the shuffle leaves the order as it is. The pair (0, 1), whose target
  comes from the row distribution, carries the label \<open>+1\<close> and the uniform pair (0, 0) the
  label \<open>-1\<close>: the counts are as the claim states (one and one), the signs are the
  opposite of what the claim and the docstring of \<^verbatim>\<open>generate_batches\<close> state.
\<close>

theorem generate_batches_labels_at_input:
  "MultipleRandomChoice_init [[(1, 1)], [(0, 1)]] =
     Inr ([[(1, 1)], [(0, 1)]], \<lparr>nodes_number = 2, choices = [[1], [0]], rc = [[1], [1]]\<rparr>) \<and>
   positive_targets \<lparr>nodes_number = 2, choices = [[1], [0]], rc = [[1], [1]]\<rparr> [0]
       \<lparr>entropy = \<lambda>n. n, position = 1\<rparr> =
     Inr ([1], \<lparr>entropy = \<lambda>n. n, position = 2\<rparr>) \<and>
   draw_batch 2 \<lparr>nodes_number = 2, choices = [[1], [0]], rc = [[1], [1]]\<rparr> 1 1
       \<lparr>entropy = \<lambda>n. n, position = 0\<rparr> =
     Inr (([0, 0], [1, 0], [1, - 1]), \<lparr>entropy = \<lambda>n. n, position = 3\<rparr>) \<and>
   generator_next (generate_batches [[(1, 1)], [(0, 1)]] 1 1 1) \<lparr>entropy = \<lambda>n. n, position = 0\<rparr> =
     (Yield ([0, 0], [1, 0], [1, - 1]),
      Suspended 2 \<lparr>nodes_number = 2, choices = [[1], [0]], rc = [[1], [1]]\<rparr> 1 1 1 0,
      \<lparr>entropy = \<lambda>n. n, position = 4\<rparr>)"
proof -
  define sampler where
    "sampler = \<lparr>nodes_number = 2, choices = [[1], [0]], rc = [[1 :: real], [1]]\<rparr>"
  define g :: rng where "g = \<lparr>entropy = \<lambda>n. n, position = 0\<rparr>"
  have init: "MultipleRandomChoice_init [[(1, 1)], [(0, 1)]] = Inr ([[(1, 1)], [(0, 1)]], sampler)"
    by (simp add: sampler_def MultipleRandomChoice_init_def MultipleRandomChoice_tables_def
      eliminate_zeros_def normalize_def normalize_row_def nonzero_def data_def enumerate_eq_zip
      Let_def fill_tables.simps row_transitions.simps RandomChoice_init_def cumsum_def)
  have pt: "positive_targets sampler [0] \<lparr>entropy = \<lambda>n. n, position = 1\<rparr> =
              Inr ([1], \<lparr>entropy = \<lambda>n. n, position = 2\<rparr>)"
    by (simp add: sampler_def next_batch_def shuffle_batch_def shuffle_def fancy_index_def
      draw_batch_def randint_def raw_values_def random_sample_def
      MultipleRandomChoice_getitem_def RandomChoice_get_def searchsorted_right_def
      binsearch_right.simps Let_def)
  have db: "draw_batch 2 sampler 1 1 g =
              Inr (([0, 0], [1, 0], [1, - 1]), \<lparr>entropy = \<lambda>n. n, position = 3\<rparr>)"
    by (simp add: sampler_def g_def next_batch_def shuffle_batch_def shuffle_def fancy_index_def
      draw_batch_def randint_def raw_values_def random_sample_def
      MultipleRandomChoice_getitem_def RandomChoice_get_def searchsorted_right_def
      binsearch_right.simps Let_def)
  have nb: "next_batch 2 sampler 1 1 g =
              Inr (([0, 0], [1, 0], [1, - 1]), \<lparr>entropy = \<lambda>n. n, position = 4\<rparr>)"
    by (simp add: sampler_def g_def mod_Suc next_batch_def shuffle_batch_def shuffle_def fancy_index_def
      draw_batch_def randint_def raw_values_def random_sample_def
      MultipleRandomChoice_getitem_def RandomChoice_get_def searchsorted_right_def
      binsearch_right.simps Let_def)
  have gn: "generator_next (generate_batches [[(1, 1)], [(0, 1)]] 1 1 1) g =
              (Yield ([0, 0], [1, 0], [1, - 1]), Suspended 2 sampler 1 1 1 0,
               \<lparr>entropy = \<lambda>n. n, position = 4\<rparr>)"
    using init nb by (simp add: generate_batches_def loop_from_def numeral_2_eq_2)
  show ?thesis using init pt db gn unfolding sampler_def g_def by simp
qed

end
